theory Spec2Isabelle
  imports Main "HOL-Library.Product_Lexorder" "HOL-Library.Multiset"
begin

section \<open>The order book of OrderBook.cpp: a treap with subtree sizes\<close>

text \<open>
  The development embeds the treap and the \<open>OrderBook\<close> class of \<^verbatim>\<open>src/OrderBook.cpp\<close>.

  \<^item> A \<open>TreapNode*\<close> is a value of the datatype \<open>treap\<close>: \<open>Null\<close> is \<open>nullptr\<close>, and
    \<open>Node l d r\<close> is a node with the children \<open>l\<close>, \<open>r\<close> and the scalar fields \<open>d\<close>.
    Every node is owned by exactly one parent edge, so the pointer structure is a tree
    and in-place updates are the rebuilding of the path to the node.
  \<^item> \<open>price\<close>, \<open>insertion_id\<close>, \<open>priority\<close>, \<open>subtree_size\<close> and ranks are mathematical
    integers. The code only compares prices, insertion ids and priorities. It counts
    nodes in \<open>subtree_size\<close> (an \<open>int\<close>) and adds in \<open>globalInsertionCounter\<close> (a
    \<open>long long\<close>): the model is of books with fewer than \<open>2 ^ 31\<close> nodes and fewer than
    \<open>2 ^ 63\<close> adds, where these counts do not overflow (\<^verbatim>\<open>main\<close> reads at most 1000000
    commands).
  \<^item> \<open>sizeShares\<close>, the requested \<open>shares\<close> and the \<open>cost\<close> are \<open>long long\<close> values that
    come from the input; the arithmetic of \<open>OrderBook::buy\<close> on them is written with the
    two's-complement wrap-around \<open>wrap64\<close> of a 64-bit target.
  \<^item> The constructor draws \<open>priority\<close> from \<open>rand()\<close>; the drawn value is a parameter
    \<open>pr\<close> of \<open>treapInsert\<close> and \<open>add\<close>, and every theorem holds for all values of it.
\<close>

subsection \<open>Nodes\<close>

record TreapNode =
  price :: int
  sizeShares :: int
  insertion_id :: int
  priority :: int
  subtree_size :: int

datatype treap = Null | Node (left: treap) (node: TreapNode) (right: treap)

text \<open>\<^verbatim>\<open>getSize\<close>: the stored size of a node, 0 for \<open>nullptr\<close>.\<close>

fun getSize :: "treap \<Rightarrow> int" where
  "getSize Null = 0"
| "getSize (Node l d r) = subtree_size d"

text \<open>\<^verbatim>\<open>updateSize\<close>: recompute the stored size of a node from its children.\<close>

fun updateSize :: "treap \<Rightarrow> treap" where
  "updateSize Null = Null"
| "updateSize (Node l d r) = Node l (d\<lparr>subtree_size := 1 + getSize l + getSize r\<rparr>) r"

text \<open>
  The rotations dereference \<open>y->left\<close> (\<open>x->right\<close>): they are given for the shape on
  which the source is defined, and are only called on the result of an insertion into
  that child, which is never \<open>nullptr\<close> (lemma \<open>treapInsert_not_Null\<close>).
\<close>

fun rotateRight :: "treap \<Rightarrow> treap" where
  "rotateRight (Node (Node a xd T2) yd c) =
     updateSize (Node a xd (updateSize (Node T2 yd c)))"

fun rotateLeft :: "treap \<Rightarrow> treap" where
  "rotateLeft (Node a xd (Node T2 yd c)) =
     updateSize (Node (updateSize (Node a xd T2)) yd c)"

text \<open>\<^verbatim>\<open>lessThan\<close>: the order on keys, price first and insertion id second.\<close>

definition lessThan_key :: "int \<Rightarrow> int \<Rightarrow> int \<Rightarrow> int \<Rightarrow> bool" where
  "lessThan_key p1 i1 p2 i2 = (if p1 \<noteq> p2 then p1 < p2 else i1 < i2)"

subsection \<open>Insertion, merge, split, removal\<close>

fun treapInsert :: "treap \<Rightarrow> int \<Rightarrow> int \<Rightarrow> int \<Rightarrow> int \<Rightarrow> treap" where
  "treapInsert Null pr p sz ins =
     Node Null \<lparr>price = p, sizeShares = sz, insertion_id = ins,
                priority = pr, subtree_size = 1\<rparr> Null"
| "treapInsert (Node l d r) pr p sz ins =
     (if lessThan_key p ins (price d) (insertion_id d) then
        (let l' = treapInsert l pr p sz ins;
             root = Node l' d r;
             root = (if priority (node l') > priority d then rotateRight root else root)
         in updateSize root)
      else
        (let r' = treapInsert r pr p sz ins;
             root = Node l d r';
             root = (if priority (node r') > priority d then rotateLeft root else root)
         in updateSize root))"

fun treapMerge :: "treap \<Rightarrow> treap \<Rightarrow> treap" where
  "treapMerge Null R = R"
| "treapMerge (Node ll ld lr) Null = Node ll ld lr"
| "treapMerge (Node ll ld lr) (Node rl rd rr) =
     (if priority ld > priority rd
      then updateSize (Node ll ld (treapMerge lr (Node rl rd rr)))
      else updateSize (Node (treapMerge (Node ll ld lr) rl) rd rr))"

fun treapSplit :: "treap \<Rightarrow> int \<Rightarrow> int \<Rightarrow> treap \<times> treap" where
  "treapSplit Null p ins = (Null, Null)"
| "treapSplit (Node l d r) p ins =
     (if lessThan_key (price d) (insertion_id d) p ins \<or>
         (price d = p \<and> insertion_id d = ins)
      then (let splitted = treapSplit r p ins
            in (updateSize (Node l d (fst splitted)), snd splitted))
      else (let splitted = treapSplit l p ins
            in (fst splitted, updateSize (Node (snd splitted) d r))))"

fun treapRemoveKey :: "treap \<Rightarrow> int \<Rightarrow> int \<Rightarrow> treap" where
  "treapRemoveKey Null p ins = Null"
| "treapRemoveKey (Node l d r) p ins =
     (if price d = p \<and> insertion_id d = ins then treapMerge l r
      else if lessThan_key p ins (price d) (insertion_id d)
      then updateSize (Node (treapRemoveKey l p ins) d r)
      else updateSize (Node l d (treapRemoveKey r p ins)))"

subsection \<open>Rank lookup and rank removal\<close>

text \<open>
  \<^verbatim>\<open>getByRank\<close> returns a pointer into the tree: the subtree rooted at the node found,
  or \<open>Null\<close>.
\<close>

fun getByRank :: "treap \<Rightarrow> int \<Rightarrow> treap" where
  "getByRank Null rank = Null"
| "getByRank (Node l d r) rank =
     (let leftSize = getSize l in
      if rank < leftSize then getByRank l rank
      else if rank = leftSize then Node l d r
      else getByRank r (rank - leftSize - 1))"

fun removeByRank :: "treap \<Rightarrow> int \<Rightarrow> treap" where
  "removeByRank Null rank = Null"
| "removeByRank (Node l d r) rank =
     (let leftSize = getSize l in
      if rank < leftSize then updateSize (Node (removeByRank l rank) d r)
      else if rank = leftSize then treapMerge l r
      else updateSize (Node l d (removeByRank r (rank - leftSize - 1))))"

text \<open>
  A write through the pointer that \<^verbatim>\<open>getByRank(root, rank)\<close> returned: the fields of the
  node found are replaced by \<open>f\<close> of them, in place; nothing happens when the lookup
  finds no node.
\<close>

fun writeByRank :: "(TreapNode \<Rightarrow> TreapNode) \<Rightarrow> treap \<Rightarrow> int \<Rightarrow> treap" where
  "writeByRank f Null rank = Null"
| "writeByRank f (Node l d r) rank =
     (let leftSize = getSize l in
      if rank < leftSize then Node (writeByRank f l rank) d r
      else if rank = leftSize then Node l (f d) r
      else Node l d (writeByRank f r (rank - leftSize - 1)))"

subsection \<open>Node counts, for the termination of the loop of buy\<close>

lemma size_updateSize [simp]: "size (updateSize t) = size t"
  by (cases t) simp_all

lemma size_treapMerge [simp]: "size (treapMerge a b) = size a + size b"
  by (induction a b rule: treapMerge.induct) simp_all

lemma getSize_writeByRank [simp]:
  "(\<And>d. subtree_size (f d) = subtree_size d) \<Longrightarrow> getSize (writeByRank f t k) = getSize t"
  by (cases t) (simp_all add: Let_def)

lemma size_writeByRank [simp]: "size (writeByRank f t k) = size t"
  by (induction t arbitrary: k) (simp_all add: Let_def)

lemma getByRank_writeByRank:
  "(\<And>d. subtree_size (f d) = subtree_size d) \<Longrightarrow>
   getByRank (writeByRank f t k) k =
     (case getByRank t k of Null \<Rightarrow> Null | Node l d r \<Rightarrow> Node l (f d) r)"
  by (induction t arbitrary: k) (simp_all add: Let_def)

lemma size_removeByRank_le: "size (removeByRank t k) \<le> size t"
  by (induction t arbitrary: k) (simp_all add: Let_def)

lemma size_removeByRank_less:
  "getByRank t k \<noteq> Null \<Longrightarrow> size (removeByRank t k) < size t"
  by (induction t arbitrary: k) (auto simp: Let_def split: if_splits)

subsection \<open>The loop of buy\<close>

text \<open>
  The value of a mathematical integer as a \<open>long long\<close>: reduction modulo \<open>2 ^ 64\<close>
  into the signed range. \<open>int64\<close> holds of the integers that are \<open>long long\<close> values.
\<close>

definition wrap64 :: "int \<Rightarrow> int" where
  "wrap64 x = (x + 2 ^ 63) mod 2 ^ 64 - 2 ^ 63"

definition int64 :: "int \<Rightarrow> bool" where
  "int64 x = (- (2 ^ 63) \<le> x \<and> x < 2 ^ 63)"

text \<open>
  One iteration of the loop of \<^verbatim>\<open>OrderBook::buy\<close>, entered with \<open>top\<close> not null: the
  fill, the write to \<open>top->sizeShares\<close>, and the removal of the node when the value
  written (which is what \<open>top->sizeShares == 0\<close> reads) is zero. It returns the new
  \<open>shares\<close>, \<open>cost\<close> and \<open>root\<close>.
\<close>

definition buyStep :: "int \<Rightarrow> int \<Rightarrow> treap \<Rightarrow> int \<times> int \<times> treap" where
  "buyStep shares cost root =
     (let top = getByRank root 0;
          canFill = min shares (sizeShares (node top));
          cost' = wrap64 (cost + wrap64 (canFill * price (node top)));
          newShares = wrap64 (sizeShares (node top) - canFill);
          root1 = writeByRank (\<lambda>d. d\<lparr>sizeShares := newShares\<rparr>) root 0;
          shares' = wrap64 (shares - canFill);
          root2 = (if newShares = 0 then removeByRank root1 0 else root1)
      in (shares', cost', root2))"

lemma wrap64_0 [simp]: "wrap64 0 = 0"
  by (simp add: wrap64_def)

lemma buyStep_measure:
  assumes "0 < shares" and "getByRank root 0 \<noteq> Null"
    and "buyStep shares cost root = (shares', cost', root')"
  shows "2 * size root' + (if 0 < shares' then 1 else 0)
           < 2 * size root + (if 0 < shares then 1 else (0::nat))"
proof (cases "shares \<le> sizeShares (node (getByRank root 0))")
  case True
  then have "shares' = 0"
    using assms(3) by (auto simp: buyStep_def Let_def)
  moreover have "size root' \<le> size root"
    using assms(3) size_removeByRank_le [of "writeByRank (\<lambda>d. d\<lparr>sizeShares := wrap64 (sizeShares (node (getByRank root 0)) - shares)\<rparr>) root 0" 0] True
    by (auto simp: buyStep_def Let_def split: if_splits)
  ultimately show ?thesis using assms(1) by simp
next
  case False
  let ?w = "writeByRank (\<lambda>d. d\<lparr>sizeShares := 0\<rparr>) root 0"
  from False have m: "min shares (sizeShares (node (getByRank root 0))) = sizeShares (node (getByRank root 0))"
    by simp
  have r: "root' = removeByRank ?w 0"
    using assms(3) by (simp add: buyStep_def Let_def m)
  have "getByRank ?w 0 \<noteq> Null"
    using assms(2) by (simp add: getByRank_writeByRank split: treap.splits)
  then have "size root' < size root"
    using size_removeByRank_less [of ?w 0] r by simp
  then show ?thesis by (simp split: if_splits)
qed

function buy_loop :: "int \<Rightarrow> int \<Rightarrow> treap \<Rightarrow> int \<times> treap" where
  "buy_loop shares cost root =
     (if 0 < shares \<and> root \<noteq> Null then
        (if getByRank root 0 = Null then (cost, root)
         else (case buyStep shares cost root of
                 (shares', cost', root') \<Rightarrow> buy_loop shares' cost' root'))
      else (cost, root))"
  by pat_completeness auto
termination
proof (relation "measure (\<lambda>(shares, cost, root). 2 * size root + (if 0 < shares then 1 else 0))",
    goal_cases)
  case 1
  show ?case by simp
next
  case (2 shares cost root x a b)
  obtain s' c' r' where e: "buyStep shares cost root = (s', c', r')"
    by (cases "buyStep shares cost root") auto
  with 2 buyStep_measure [of shares root cost s' c' r'] show ?case
    by auto
qed

declare buy_loop.simps [simp del]

subsection \<open>The order book\<close>

record OrderBook =
  root :: treap
  globalInsertionCounter :: int

definition newBook :: OrderBook where
  "newBook = \<lparr>root = Null, globalInsertionCounter = 0\<rparr>"

text \<open>\<^verbatim>\<open>add\<close>; \<open>pr\<close> is the priority that the node's constructor draws.\<close>

definition add :: "OrderBook \<Rightarrow> int \<Rightarrow> int \<Rightarrow> int \<Rightarrow> OrderBook" where
  "add b pr p sz =
     \<lparr>root = treapInsert (root b) pr p sz (globalInsertionCounter b),
      globalInsertionCounter = globalInsertionCounter b + 1\<rparr>"

definition removeByPosition :: "OrderBook \<Rightarrow> int \<Rightarrow> OrderBook" where
  "removeByPosition b pos = b\<lparr>root := removeByRank (root b) pos\<rparr>"

text \<open>\<^verbatim>\<open>buy\<close> returns the cost and leaves the book updated.\<close>

definition buy :: "OrderBook \<Rightarrow> int \<Rightarrow> int \<times> OrderBook" where
  "buy b shares = (case buy_loop shares 0 (root b) of (cost, t) \<Rightarrow> (cost, b\<lparr>root := t\<rparr>))"

text \<open>
  The commands that \<^verbatim>\<open>main\<close> dispatches: \<open>+\<close> to \<open>add\<close>, \<open>-\<close> to \<open>removeByPosition\<close> and
  \<open>=\<close> to \<open>buy\<close>, whose result it drops. \<open>Add\<close> carries the priority drawn for the
  new node.
\<close>

datatype command = Add int int int | Remove int | Buy int

fun exec :: "OrderBook \<Rightarrow> command \<Rightarrow> OrderBook" where
  "exec b (Add pr p sz) = add b pr p sz"
| "exec b (Remove pos) = removeByPosition b pos"
| "exec b (Buy shares) = snd (buy b shares)"

definition run :: "command list \<Rightarrow> OrderBook" where
  "run cmds = foldl exec newBook cmds"

text \<open>A sequence of \<open>add\<close> calls, each given as (priority drawn, price, quantity).\<close>

fun addAll :: "OrderBook \<Rightarrow> (int \<times> int \<times> int) list \<Rightarrow> OrderBook" where
  "addAll b [] = b"
| "addAll b ((pr, p, q) # adds) = addAll (add b pr p q) adds"

subsection \<open>In-order traversal and the structural invariants\<close>

text \<open>
  \<open>tmap f t\<close> is the in-order traversal of \<open>t\<close>, with \<open>f\<close> read off every node: the
  keys \<open>(price, insertion_id)\<close>, the priorities, or the resting orders
  \<open>(price, insertion_id, sizeShares)\<close>.
\<close>

fun tmap :: "(TreapNode \<Rightarrow> 'a) \<Rightarrow> treap \<Rightarrow> 'a list" where
  "tmap f Null = []"
| "tmap f (Node l d r) = tmap f l @ f d # tmap f r"

text \<open>The key of a node, and the resting order \<open>(price, sequence, quantity)\<close> it holds.\<close>

definition key :: "TreapNode \<Rightarrow> int \<times> int" where
  "key d = (price d, insertion_id d)"

definition entry :: "TreapNode \<Rightarrow> int \<times> int \<times> int" where
  "entry d = (price d, insertion_id d, sizeShares d)"

text \<open>
  Invariant 1: the keys of the in-order traversal are strictly increasing. Pairs are
  ordered lexicographically, which is the order of \<open>lessThan_key\<close> (lemma
  \<open>lessThan_key_iff\<close>).
\<close>

definition bst_ok :: "treap \<Rightarrow> bool" where
  "bst_ok t = sorted_wrt (<) (tmap key t)"

text \<open>
  Invariant 2: the priority of every node is greater than or equal to the priority of
  each child it has (\<open>child_le c x\<close>: the child \<open>c\<close> is absent or its priority is at most
  \<open>x\<close>).
\<close>

fun child_le :: "treap \<Rightarrow> int \<Rightarrow> bool" where
  "child_le Null x = True"
| "child_le (Node l d r) x = (priority d \<le> x)"

fun heap_ok :: "treap \<Rightarrow> bool" where
  "heap_ok Null = True"
| "heap_ok (Node l d r) =
     (heap_ok l \<and> heap_ok r \<and> child_le l (priority d) \<and> child_le r (priority d))"

text \<open>Invariant 3: every stored size is one more than the stored sizes of the children.\<close>

fun size_ok :: "treap \<Rightarrow> bool" where
  "size_ok Null = True"
| "size_ok (Node l d r) =
     (size_ok l \<and> size_ok r \<and> subtree_size d = 1 + getSize l + getSize r)"

definition treap_inv :: "treap \<Rightarrow> bool" where
  "treap_inv t = (bst_ok t \<and> heap_ok t \<and> size_ok t)"

text \<open>What is read off a node does not depend on its stored size.\<close>

definition ignores_size :: "(TreapNode \<Rightarrow> 'a) \<Rightarrow> bool" where
  "ignores_size f = (\<forall>d k. f (d\<lparr>subtree_size := k\<rparr>) = f d)"

text \<open>
  The invariant of the book: the tree satisfies the three invariants and every
  insertion id in it is below the counter, so that the next key is new.
\<close>

definition book_inv :: "OrderBook \<Rightarrow> bool" where
  "book_inv b =
     (treap_inv (root b) \<and> (\<forall>k \<in> set (tmap key (root b)). snd k < globalInsertionCounter b))"

text \<open>The order found at a rank, if there is one.\<close>

definition entryAt :: "treap \<Rightarrow> int \<Rightarrow> (int \<times> int \<times> int) option" where
  "entryAt t k = (case getByRank t k of Null \<Rightarrow> None | Node l d r \<Rightarrow> Some (entry d))"

subsection \<open>Reference definitions\<close>

text \<open>
  The reference walk of the specification, in exact integers: the orders are taken in
  the given (rank) order, each gives \<open>min Q quantity\<close> units at its price, until \<open>Q\<close>
  units are taken or no order is left.
\<close>

fun naive_cost :: "(int \<times> int \<times> int) list \<Rightarrow> int \<Rightarrow> int" where
  "naive_cost [] Q = 0"
| "naive_cost ((p, s, q) # es) Q =
     (if Q \<le> 0 then 0
      else (let units_taken = min Q q in p * units_taken + naive_cost es (Q - units_taken)))"

text \<open>
  The adds of a command stream, numbered as \<open>add\<close> numbers them: each is a resting order
  \<open>(price, sequence, quantity)\<close>.
\<close>

fun number_from :: "int \<Rightarrow> (int \<times> int \<times> int) list \<Rightarrow> (int \<times> int \<times> int) list" where
  "number_from c [] = []"
| "number_from c ((pr, p, q) # adds) = (p, c, q) # number_from (c + 1) adds"

definition rank_order :: "(int \<times> int \<times> int) list \<Rightarrow> (int \<times> int \<times> int) list" where
  "rank_order es = sort_key (\<lambda>(p, s, q). (p, s)) es"

text \<open>
  A removal by key that uses split, for comparison with \<open>treapRemoveKey\<close>: the tree is
  split at the key, the part up to the key is split again just below the key, which
  cuts the node off, and the two outer parts are merged.
\<close>

definition removeKey_by_split :: "treap \<Rightarrow> int \<Rightarrow> int \<Rightarrow> treap" where
  "removeKey_by_split t p ins =
     (let upto = fst (treapSplit t p ins);
          above = snd (treapSplit t p ins);
          below = fst (treapSplit upto p (ins - 1))
      in treapMerge below above)"

text \<open>
  The loop of \<open>buy\<close> as it acts on the in-order list of resting orders (lemma
  \<open>buy_loop_walk64\<close>): it returns the cost and the orders left.
\<close>

fun walk64 :: "int \<Rightarrow> int \<Rightarrow> (int \<times> int \<times> int) list \<Rightarrow> int \<times> (int \<times> int \<times> int) list" where
  "walk64 shares cost [] = (cost, [])"
| "walk64 shares cost ((p, s, q) # es) =
     (if 0 < shares then
        (let canFill = min shares q;
             cost' = wrap64 (cost + wrap64 (canFill * p));
             newShares = wrap64 (q - canFill);
             shares' = wrap64 (shares - canFill)
         in if newShares = 0 then walk64 shares' cost' es
            else (cost', (p, s, newShares) # es))
      else (cost, (p, s, q) # es))"

section \<open>Properties of the tree operations and of the loop of buy\<close>

lemma ignores_size_simps [simp]:
  "ignores_size key" "ignores_size entry" "ignores_size priority" "ignores_size sizeShares"
  by (simp_all add: ignores_size_def key_def entry_def)

lemma key_update [simp]:
  "key (d\<lparr>subtree_size := k\<rparr>) = key d" "key (d\<lparr>sizeShares := v\<rparr>) = key d"
  by (simp_all add: key_def)

lemma entry_update [simp]:
  "entry (d\<lparr>subtree_size := k\<rparr>) = entry d"
  "entry (d\<lparr>sizeShares := v\<rparr>) = (price d, insertion_id d, v)"
  by (simp_all add: entry_def)

lemma lessThan_key_iff: "lessThan_key p1 i1 p2 i2 \<longleftrightarrow> (p1, i1) < (p2, i2)"
  by (auto simp: lessThan_key_def)

lemma tmap_updateSize [simp]: "ignores_size f \<Longrightarrow> tmap f (updateSize t) = tmap f t"
  by (cases t) (simp_all add: ignores_size_def)

lemma treapInsert_not_Null: "treapInsert t pr p sz ins \<noteq> Null"
proof (induction t)
  case Null
  show ?case by simp
next
  case (Node l d r)
  obtain a x b where l': "treapInsert l pr p sz ins = Node a x b"
    using Node.IH(1) by (cases "treapInsert l pr p sz ins") auto
  obtain a' x' b' where r': "treapInsert r pr p sz ins = Node a' x' b'"
    using Node.IH(2) by (cases "treapInsert r pr p sz ins") auto
  show ?case
    by (simp add: l' r' Let_def)
qed

lemma tmap_treapInsert_Node:
  assumes "ignores_size f"
  shows "tmap f (treapInsert (Node l d r) pr p sz ins) =
     (if lessThan_key p ins (price d) (insertion_id d)
      then tmap f (treapInsert l pr p sz ins) @ f d # tmap f r
      else tmap f l @ f d # tmap f (treapInsert r pr p sz ins))"
proof -
  obtain a x b where l': "treapInsert l pr p sz ins = Node a x b"
    using treapInsert_not_Null [of l] by (cases "treapInsert l pr p sz ins") auto
  obtain a' x' b' where r': "treapInsert r pr p sz ins = Node a' x' b'"
    using treapInsert_not_Null [of r] by (cases "treapInsert r pr p sz ins") auto
  show ?thesis using assms
    by (simp add: l' r' Let_def ignores_size_def)
qed

lemma mset_tmap_treapInsert:
  assumes "ignores_size f"
  shows "mset (tmap f (treapInsert t pr p sz ins)) =
     add_mset (f \<lparr>price = p, sizeShares = sz, insertion_id = ins, priority = pr, subtree_size = 1\<rparr>)
       (mset (tmap f t))"
proof (induction t)
  case Null
  show ?case by simp
next
  case (Node l d r)
  show ?case using Node.IH
    by (simp add: tmap_treapInsert_Node [OF assms] del: treapInsert.simps)
qed

lemma tmap_treapMerge [simp]:
  "ignores_size f \<Longrightarrow> tmap f (treapMerge a b) = tmap f a @ tmap f b"
  by (induction a b rule: treapMerge.induct) (simp_all add: ignores_size_def)

lemma tmap_treapSplit:
  "ignores_size f \<Longrightarrow>
   tmap f (fst (treapSplit t p ins)) @ tmap f (snd (treapSplit t p ins)) = tmap f t"
  by (induction t) (simp_all add: ignores_size_def Let_def)

lemma length_tmap [simp]: "length (tmap f t) = size t"
  by (induction t) simp_all

lemma size_ok_getSize: "size_ok t \<Longrightarrow> getSize t = int (size t)"
  by (induction t) simp_all

lemma size_ok_updateSize [simp]:
  "size_ok (updateSize (Node l d r)) = (size_ok l \<and> size_ok r)"
  by simp

lemma getSize_updateSize_Node:
  "getSize (updateSize (Node l d r)) = 1 + getSize l + getSize r"
  by simp

lemma size_ok_treapInsert: "size_ok t \<Longrightarrow> size_ok (treapInsert t pr p sz ins)"
proof (induction t)
  case Null
  show ?case by simp
next
  case (Node l d r)
  obtain a x b where l': "treapInsert l pr p sz ins = Node a x b"
    using treapInsert_not_Null [of l] by (cases "treapInsert l pr p sz ins") auto
  obtain a' x' b' where r': "treapInsert r pr p sz ins = Node a' x' b'"
    using treapInsert_not_Null [of r] by (cases "treapInsert r pr p sz ins") auto
  from Node show ?case
    by (auto simp: l' r' Let_def)
qed

lemma size_ok_treapMerge: "size_ok a \<Longrightarrow> size_ok b \<Longrightarrow> size_ok (treapMerge a b)"
  by (induction a b rule: treapMerge.induct) simp_all

lemma size_ok_treapSplit:
  "size_ok t \<Longrightarrow> size_ok (fst (treapSplit t p ins)) \<and> size_ok (snd (treapSplit t p ins))"
  by (induction t) (simp_all add: Let_def)

lemma size_ok_treapRemoveKey: "size_ok t \<Longrightarrow> size_ok (treapRemoveKey t p ins)"
  by (induction t) (simp_all add: size_ok_treapMerge)

lemma size_ok_removeByRank: "size_ok t \<Longrightarrow> size_ok (removeByRank t k)"
  by (induction t arbitrary: k) (simp_all add: size_ok_treapMerge Let_def)

lemma size_ok_writeByRank:
  "(\<And>d. subtree_size (f d) = subtree_size d) \<Longrightarrow> size_ok t \<Longrightarrow> size_ok (writeByRank f t k)"
  by (induction t arbitrary: k) (simp_all add: Let_def)

lemma child_le_updateSize [simp]: "child_le (updateSize t) x = child_le t x"
  by (cases t) simp_all

lemma heap_ok_updateSize [simp]: "heap_ok (updateSize t) = heap_ok t"
  by (cases t) simp_all

lemma heap_ok_all_le:
  "heap_ok t \<Longrightarrow> child_le t x \<Longrightarrow>
   \<forall>q \<in> set (tmap priority t). q \<le> x"
proof (induction t arbitrary: x)
  case Null
  show ?case by simp
next
  case (Node l d r)
  have "\<forall>q \<in> set (tmap priority l). q \<le> priority d"
    using Node.prems(1) by (intro Node.IH(1)) auto
  moreover have "\<forall>q \<in> set (tmap priority r). q \<le> priority d"
    using Node.prems(1) by (intro Node.IH(2)) auto
  ultimately show ?case using Node.prems(2) by auto
qed

lemma set_tmap_treapInsert:
  "ignores_size f \<Longrightarrow> set (tmap f (treapInsert t pr p sz ins)) =
     insert (f \<lparr>price = p, sizeShares = sz, insertion_id = ins, priority = pr, subtree_size = 1\<rparr>)
       (set (tmap f t))"
  using mset_tmap_treapInsert [of f t pr p sz ins, THEN arg_cong, of set_mset] by simp

lemma heap_ok_treapInsert: "heap_ok t \<Longrightarrow> heap_ok (treapInsert t pr p sz ins)"
proof (induction t)
  case Null
  show ?case by simp
next
  case (Node l d r)
  have hl: "heap_ok l" and hr: "heap_ok r" using Node.prems by simp_all
  have lle: "\<forall>q \<in> set (tmap priority l). q \<le> priority d"
    using Node.prems by (intro heap_ok_all_le) auto
  have rle: "\<forall>q \<in> set (tmap priority r). q \<le> priority d"
    using Node.prems by (intro heap_ok_all_le) auto
  show ?case
  proof (cases "lessThan_key p ins (price d) (insertion_id d)")
    case True
    obtain a x b where l': "treapInsert l pr p sz ins = Node a x b"
      using treapInsert_not_Null [of l] by (cases "treapInsert l pr p sz ins") auto
    have h': "heap_ok (Node a x b)" using Node.IH(1) [OF hl] l' by simp
    show ?thesis
    proof (cases "priority x > priority d")
      case False
      with True h' hr Node.prems show ?thesis
        by (simp add: l' Let_def)
    next
      case rot: True
      have m: "mset (tmap priority (Node a x b)) = add_mset pr (mset (tmap priority l))"
        using mset_tmap_treapInsert [of priority l pr p sz ins] l' by simp
      have "priority x \<in># add_mset pr (mset (tmap priority l))"
        using m [symmetric] by simp
      with rot lle have "priority x = pr" by auto
      with m have "mset (tmap priority a) + mset (tmap priority b) = mset (tmap priority l)"
        by simp
      then have "set (tmap priority b) \<subseteq> set (tmap priority l)"
        by (metis mset_append set_append Un_upper2 mset_eq_setD)
      with lle have "\<forall>q \<in> set (tmap priority b). q \<le> priority d" by auto
      then have "child_le b (priority d)"
        by (cases b) auto
      with True rot h' hr Node.prems show ?thesis
        by (simp add: l' Let_def)
    qed
  next
    case False
    obtain a x b where r': "treapInsert r pr p sz ins = Node a x b"
      using treapInsert_not_Null [of r] by (cases "treapInsert r pr p sz ins") auto
    have h': "heap_ok (Node a x b)" using Node.IH(2) [OF hr] r' by simp
    show ?thesis
    proof (cases "priority x > priority d")
      case nrot: False
      with False h' hl Node.prems show ?thesis
        by (simp add: r' Let_def)
    next
      case rot: True
      have m: "mset (tmap priority (Node a x b)) = add_mset pr (mset (tmap priority r))"
        using mset_tmap_treapInsert [of priority r pr p sz ins] r' by simp
      have "priority x \<in># add_mset pr (mset (tmap priority r))"
        using m [symmetric] by simp
      with rot rle have "priority x = pr" by auto
      with m have "mset (tmap priority a) + mset (tmap priority b) = mset (tmap priority r)"
        by simp
      then have "set (tmap priority a) \<subseteq> set (tmap priority r)"
        by (metis mset_append set_append Un_upper1 mset_eq_setD)
      with rle have "\<forall>q \<in> set (tmap priority a). q \<le> priority d" by auto
      then have "child_le a (priority d)"
        by (cases a) auto
      with False rot h' hl Node.prems show ?thesis
        by (simp add: r' Let_def)
    qed
  qed
qed

lemma bst_ok_updateSize [simp]: "bst_ok (updateSize t) = bst_ok t"
  by (simp add: bst_ok_def)

lemma bst_ok_Null [simp]: "bst_ok Null"
  by (simp add: bst_ok_def)

lemma bst_ok_Node:
  "bst_ok (Node l d r) \<longleftrightarrow>
     bst_ok l \<and> bst_ok r \<and> (\<forall>k \<in> set (tmap key l). k < key d) \<and>
     (\<forall>k \<in> set (tmap key r). key d < k)"
  unfolding bst_ok_def tmap.simps sorted_wrt_append sorted_wrt.simps set_simps
  by (blast intro: less_trans)

lemma bst_ok_treapInsert:
  "bst_ok t \<Longrightarrow> (p, ins) \<notin> set (tmap key t) \<Longrightarrow> bst_ok (treapInsert t pr p sz ins)"
proof (induction t)
  case Null
  show ?case by (simp add: bst_ok_def)
next
  case (Node l d r)
  have k: "key \<lparr>price = p, sizeShares = sz, insertion_id = ins, priority = pr, subtree_size = 1\<rparr> = (p, ins)"
    by (simp add: key_def)
  have ne: "(p, ins) \<noteq> key d" using Node.prems(2) by simp
  show ?case
  proof (cases "lessThan_key p ins (price d) (insertion_id d)")
    case True
    then have lt: "(p, ins) < key d" by (simp add: lessThan_key_iff key_def)
    have "bst_ok (treapInsert l pr p sz ins)"
      using Node by (simp add: bst_ok_Node)
    moreover have "\<forall>k \<in> set (tmap key (treapInsert l pr p sz ins)). k < key d"
      using Node.prems(1) lt by (simp add: set_tmap_treapInsert k bst_ok_Node)
    ultimately have "bst_ok (Node (treapInsert l pr p sz ins) d r)"
      using Node.prems(1) by (simp add: bst_ok_Node)
    then show ?thesis using True
      by (simp add: bst_ok_def tmap_treapInsert_Node del: treapInsert.simps)
  next
    case False
    then have lt: "key d < (p, ins)" using ne by (auto simp: lessThan_key_iff key_def)
    have "bst_ok (treapInsert r pr p sz ins)"
      using Node by (simp add: bst_ok_Node)
    moreover have "\<forall>k \<in> set (tmap key (treapInsert r pr p sz ins)). key d < k"
      using Node.prems(1) lt by (simp add: set_tmap_treapInsert k bst_ok_Node)
    ultimately have "bst_ok (Node l d (treapInsert r pr p sz ins))"
      using Node.prems(1) by (simp add: bst_ok_Node)
    then show ?thesis using False
      by (simp add: bst_ok_def tmap_treapInsert_Node del: treapInsert.simps)
  qed
qed

lemma all_le_child_le: "\<forall>q \<in> set (tmap priority t). q \<le> x \<Longrightarrow> child_le t x"
  by (cases t) auto

lemma child_le_treapMerge:
  "child_le a x \<Longrightarrow> child_le b x \<Longrightarrow> child_le (treapMerge a b) x"
  by (induction a b rule: treapMerge.induct) simp_all

lemma heap_ok_treapMerge: "heap_ok a \<Longrightarrow> heap_ok b \<Longrightarrow> heap_ok (treapMerge a b)"
  by (induction a b rule: treapMerge.induct) (auto simp: child_le_treapMerge)

lemma bst_ok_treapMerge:
  "bst_ok a \<Longrightarrow> bst_ok b \<Longrightarrow> \<forall>x \<in> set (tmap key a). \<forall>y \<in> set (tmap key b). x < y \<Longrightarrow>
   bst_ok (treapMerge a b)"
  by (simp add: bst_ok_def sorted_wrt_append)

lemma set_tmap_treapSplit:
  "ignores_size f \<Longrightarrow>
   set (tmap f (fst (treapSplit t p ins))) \<union> set (tmap f (snd (treapSplit t p ins))) = set (tmap f t)"
  using tmap_treapSplit [of f t p ins, THEN arg_cong, of set] by simp

lemma heap_ok_treapSplit:
  "heap_ok t \<Longrightarrow> heap_ok (fst (treapSplit t p ins)) \<and> heap_ok (snd (treapSplit t p ins))"
proof (induction t)
  case Null
  show ?case by simp
next
  case (Node l d r)
  have lle: "\<forall>q \<in> set (tmap priority l). q \<le> priority d"
    using Node.prems by (intro heap_ok_all_le) auto
  have rle: "\<forall>q \<in> set (tmap priority r). q \<le> priority d"
    using Node.prems by (intro heap_ok_all_le) auto
  have "child_le (fst (treapSplit r p ins)) (priority d)"
    using rle set_tmap_treapSplit [of priority r p ins] by (intro all_le_child_le) auto
  moreover have "child_le (snd (treapSplit l p ins)) (priority d)"
    using lle set_tmap_treapSplit [of priority l p ins] by (intro all_le_child_le) auto
  ultimately show ?case using Node by (simp add: Let_def)
qed

lemma bst_ok_treapSplit:
  assumes "bst_ok t"
  shows "bst_ok (fst (treapSplit t p ins)) \<and> bst_ok (snd (treapSplit t p ins))"
proof -
  have "sorted_wrt (<) (tmap key (fst (treapSplit t p ins)) @ tmap key (snd (treapSplit t p ins)))"
    using assms by (simp add: tmap_treapSplit bst_ok_def)
  then show ?thesis by (simp add: bst_ok_def sorted_wrt_append)
qed

lemma set_tmap_treapRemoveKey:
  "ignores_size f \<Longrightarrow> set (tmap f (treapRemoveKey t p ins)) \<subseteq> set (tmap f t)"
  by (induction t) (auto simp: ignores_size_def)

lemma heap_ok_treapRemoveKey: "heap_ok t \<Longrightarrow> heap_ok (treapRemoveKey t p ins)"
proof (induction t)
  case Null
  show ?case by simp
next
  case (Node l d r)
  have lle: "\<forall>q \<in> set (tmap priority l). q \<le> priority d"
    using Node.prems by (intro heap_ok_all_le) auto
  have rle: "\<forall>q \<in> set (tmap priority r). q \<le> priority d"
    using Node.prems by (intro heap_ok_all_le) auto
  have "child_le (treapRemoveKey l p ins) (priority d)"
    using lle set_tmap_treapRemoveKey [of priority l p ins] by (intro all_le_child_le) auto
  moreover have "child_le (treapRemoveKey r p ins) (priority d)"
    using rle set_tmap_treapRemoveKey [of priority r p ins] by (intro all_le_child_le) auto
  ultimately show ?case using Node by (simp add: heap_ok_treapMerge)
qed

lemma bst_ok_treapRemoveKey: "bst_ok t \<Longrightarrow> bst_ok (treapRemoveKey t p ins)"
proof (induction t)
  case Null
  show ?case by simp
next
  case (Node l d r)
  have "\<forall>k \<in> set (tmap key (treapRemoveKey l p ins)). k < key d"
    using Node.prems set_tmap_treapRemoveKey [of key l p ins] by (auto simp: bst_ok_Node)
  moreover have "\<forall>k \<in> set (tmap key (treapRemoveKey r p ins)). key d < k"
    using Node.prems set_tmap_treapRemoveKey [of key r p ins] by (auto simp: bst_ok_Node)
  moreover have "bst_ok (treapMerge l r)"
    using Node.prems by (intro bst_ok_treapMerge) (auto simp: bst_ok_Node intro: less_trans)
  ultimately show ?case using Node by (simp add: bst_ok_Node)
qed

lemma set_tmap_removeByRank:
  "ignores_size f \<Longrightarrow> set (tmap f (removeByRank t k)) \<subseteq> set (tmap f t)"
  by (induction t arbitrary: k) (auto simp: ignores_size_def Let_def)

lemma heap_ok_removeByRank: "heap_ok t \<Longrightarrow> heap_ok (removeByRank t k)"
proof (induction t arbitrary: k)
  case Null
  show ?case by simp
next
  case (Node l d r)
  have lle: "\<forall>q \<in> set (tmap priority l). q \<le> priority d"
    using Node.prems by (intro heap_ok_all_le) auto
  have rle: "\<forall>q \<in> set (tmap priority r). q \<le> priority d"
    using Node.prems by (intro heap_ok_all_le) auto
  have "child_le (removeByRank l k') (priority d)" for k'
    using lle set_tmap_removeByRank [of priority l k'] by (intro all_le_child_le) auto
  moreover have "child_le (removeByRank r k') (priority d)" for k'
    using rle set_tmap_removeByRank [of priority r k'] by (intro all_le_child_le) auto
  ultimately show ?case using Node by (simp add: heap_ok_treapMerge Let_def)
qed

lemma bst_ok_removeByRank: "bst_ok t \<Longrightarrow> bst_ok (removeByRank t k)"
proof (induction t arbitrary: k)
  case Null
  show ?case by simp
next
  case (Node l d r)
  have "\<forall>x \<in> set (tmap key (removeByRank l k')). x < key d" for k'
    using Node.prems set_tmap_removeByRank [of key l k'] by (auto simp: bst_ok_Node)
  moreover have "\<forall>x \<in> set (tmap key (removeByRank r k')). key d < x" for k'
    using Node.prems set_tmap_removeByRank [of key r k'] by (auto simp: bst_ok_Node)
  moreover have "bst_ok (treapMerge l r)"
    using Node.prems by (intro bst_ok_treapMerge) (auto simp: bst_ok_Node intro: less_trans)
  ultimately show ?case using Node by (simp add: bst_ok_Node Let_def)
qed

lemma tmap_writeByRank_same:
  "(\<And>d. g (f d) = g d) \<Longrightarrow> tmap g (writeByRank f t k) = tmap g t"
  by (induction t arbitrary: k) (simp_all add: Let_def)

lemma child_le_writeByRank:
  "(\<And>d. priority (f d) = priority d) \<Longrightarrow> child_le (writeByRank f t k) x = child_le t x"
  by (cases t) (simp_all add: Let_def)

lemma heap_ok_writeByRank:
  "(\<And>d. priority (f d) = priority d) \<Longrightarrow> heap_ok t \<Longrightarrow> heap_ok (writeByRank f t k)"
  by (induction t arbitrary: k) (simp_all add: Let_def child_le_writeByRank)

lemma bst_ok_writeByRank:
  "(\<And>d. key (f d) = key d) \<Longrightarrow> bst_ok t \<Longrightarrow> bst_ok (writeByRank f t k)"
  by (simp add: bst_ok_def tmap_writeByRank_same)

lemma getSize_nonneg: "size_ok t \<Longrightarrow> 0 \<le> getSize t"
  by (simp add: size_ok_getSize)

lemma getByRank_out_of_range:
  "size_ok t \<Longrightarrow> k < 0 \<or> getSize t \<le> k \<Longrightarrow> getByRank t k = Null"
proof (induction t arbitrary: k)
  case Null
  show ?case by simp
next
  case (Node l d r)
  from Node.prems have s: "size_ok l" "size_ok r" "subtree_size d = 1 + getSize l + getSize r"
    by simp_all
  from Node.prems(2) show ?case
    using Node.IH(1) [OF s(1), of k] Node.IH(2) [OF s(2), of "k - getSize l - 1"]
      getSize_nonneg [OF s(1)] getSize_nonneg [OF s(2)] s(3)
    by (auto simp: Let_def)
qed

lemma getByRank_in_range:
  "size_ok t \<Longrightarrow> 0 \<le> k \<Longrightarrow> k < getSize t \<Longrightarrow>
   \<exists>l d r. getByRank t k = Node l d r \<and> f d = tmap f t ! nat k"
proof (induction t arbitrary: k)
  case Null
  then show ?case by simp
next
  case (Node l d r)
  from Node.prems have s: "size_ok l" "size_ok r" "subtree_size d = 1 + getSize l + getSize r"
    by simp_all
  have gl: "getSize l = int (length (tmap f l))" using s(1) by (simp add: size_ok_getSize)
  consider "k < getSize l" | "k = getSize l" | "getSize l < k" by linarith
  then show ?case
  proof cases
    case 1
    with Node.IH(1) [OF s(1) Node.prems(2)] gl Node.prems(2) show ?thesis
      by (auto simp: Let_def nth_append)
  next
    case 2
    with gl show ?thesis by (simp add: Let_def nth_append)
  next
    case 3
    have "k - getSize l - 1 < getSize r" using Node.prems(3) s(3) by simp
    with Node.IH(2) [OF s(2), of "k - getSize l - 1"] 3
    obtain l' d' r' where g: "getByRank r (k - getSize l - 1) = Node l' d' r'"
      "f d' = tmap f r ! nat (k - getSize l - 1)" by auto
    have "nat k - length (tmap f l) = Suc (nat (k - getSize l - 1))"
      using 3 gl Node.prems(2) by (simp add: nat_diff_distrib; linarith)
    with 3 g gl show ?thesis
      by (auto simp: Let_def nth_append)
  qed
qed

lemma removeByRank_out_of_range:
  "size_ok t \<Longrightarrow> k < 0 \<or> getSize t \<le> k \<Longrightarrow> removeByRank t k = t"
proof (induction t arbitrary: k)
  case Null
  show ?case by simp
next
  case (Node l d r)
  from Node.prems have s: "size_ok l" "size_ok r" "subtree_size d = 1 + getSize l + getSize r"
    by simp_all
  from Node.prems(2) show ?case
    using Node.IH(1) [OF s(1), of k] Node.IH(2) [OF s(2), of "k - getSize l - 1"]
      getSize_nonneg [OF s(1)] getSize_nonneg [OF s(2)] s(3)
    by (auto simp: Let_def)
qed

lemma tmap_removeByRank:
  "ignores_size f \<Longrightarrow> size_ok t \<Longrightarrow> 0 \<le> k \<Longrightarrow> k < getSize t \<Longrightarrow>
   tmap f (removeByRank t k) = take (nat k) (tmap f t) @ drop (Suc (nat k)) (tmap f t)"
proof (induction t arbitrary: k)
  case Null
  then show ?case by simp
next
  case (Node l d r)
  from Node.prems have s: "size_ok l" "size_ok r" "subtree_size d = 1 + getSize l + getSize r"
    by simp_all
  have gl: "getSize l = int (size l)" using s(1) by (simp add: size_ok_getSize)
  have u: "f (d\<lparr>subtree_size := j\<rparr>) = f d" for j
    using Node.prems(1) by (simp add: ignores_size_def)
  consider "k < getSize l" | "k = getSize l" | "getSize l < k" by linarith
  then show ?case
  proof cases
    case 1
    with Node.IH(1) [OF Node.prems(1) s(1) Node.prems(3)] gl Node.prems(3) show ?thesis
      by (simp add: Let_def u)
  next
    case 2
    with gl Node.prems(1) show ?thesis by (simp add: Let_def)
  next
    case 3
    have lt: "k - getSize l - 1 < getSize r" using Node.prems(4) s(3) by simp
    have e: "nat k - size l = Suc (nat (k - int (size l) - 1))"
      using 3 gl Node.prems(3) by (simp add: nat_diff_distrib; linarith)
    have ge: "size l \<le> nat k" using 3 gl by simp
    from 3 Node.IH(2) [OF Node.prems(1) s(2) _ lt] gl show ?thesis
      by (simp add: Let_def u e ge Suc_diff_le)
  qed
qed

lemma tmap_writeByRank:
  "size_ok t \<Longrightarrow> 0 \<le> k \<Longrightarrow> k < getSize t \<Longrightarrow>
   tmap g (writeByRank f t k) = (tmap g t)[nat k := g (f (node (getByRank t k)))]"
proof (induction t arbitrary: k)
  case Null
  then show ?case by simp
next
  case (Node l d r)
  from Node.prems have s: "size_ok l" "size_ok r" "subtree_size d = 1 + getSize l + getSize r"
    by simp_all
  have gl: "getSize l = int (size l)" using s(1) by (simp add: size_ok_getSize)
  consider "k < getSize l" | "k = getSize l" | "getSize l < k" by linarith
  then show ?case
  proof cases
    case 1
    then have "nat k < size l" using gl Node.prems(2) by simp
    with 1 Node.IH(1) [OF s(1) Node.prems(2)] gl show ?thesis
      by (simp add: Let_def list_update_append)
  next
    case 2
    with gl show ?thesis by (simp add: Let_def list_update_append)
  next
    case 3
    have lt: "k - getSize l - 1 < getSize r" using Node.prems(3) s(3) by simp
    have e: "nat k - size l = Suc (nat (k - int (size l) - 1))"
      using 3 gl Node.prems(2) by (simp add: nat_diff_distrib; linarith)
    have ge: "\<not> nat k < size l" using 3 gl by simp
    from 3 Node.IH(2) [OF s(2) _ lt] gl show ?thesis
      by (simp add: Let_def e ge list_update_append)
  qed
qed

lemma tmap_Nil_iff [simp]: "tmap f t = [] \<longleftrightarrow> t = Null"
  by (cases t) simp_all

lemma buyStep_entries:
  assumes "size_ok t" and "tmap entry t = (p, s, q) # es"
  shows "buyStep shares cost t =
     (wrap64 (shares - min shares q), wrap64 (cost + wrap64 (min shares q * p)),
      snd (snd (buyStep shares cost t)))"
    and "size_ok (snd (snd (buyStep shares cost t)))"
    and "tmap entry (snd (snd (buyStep shares cost t))) =
       (if wrap64 (q - min shares q) = 0 then es else (p, s, wrap64 (q - min shares q)) # es)"
    and "getByRank t 0 \<noteq> Null"
proof -
  have ne: "t \<noteq> Null" using assms(2) by auto
  then have pos: "0 < getSize t" using assms(1) by (cases t) (simp_all add: size_ok_getSize)
  from getByRank_in_range [where f = entry and k = 0, OF assms(1) _ pos] assms(2)
  obtain l d r where g: "getByRank t 0 = Node l d r" and d: "entry d = (p, s, q)"
    by auto
  from d have pq: "price d = p" "sizeShares d = q" "insertion_id d = s"
    by (simp_all add: entry_def)
  let ?w = "writeByRank (\<lambda>d. d\<lparr>sizeShares := wrap64 (q - min shares q)\<rparr>) t 0"
  have w_ok: "size_ok ?w" using assms(1) by (intro size_ok_writeByRank) simp_all
  have w_e: "tmap entry ?w = (p, s, wrap64 (q - min shares q)) # es"
    using tmap_writeByRank [where g = entry and k = 0, OF assms(1) _ pos] assms(2) g pq by simp
  have w_pos: "0 < getSize ?w" using pos by simp
  have r_e: "tmap entry (removeByRank ?w 0) = es"
    using tmap_removeByRank [where f = entry and k = 0, OF _ w_ok _ w_pos] w_e by simp
  show "getByRank t 0 \<noteq> Null" using g by simp
  show "buyStep shares cost t =
     (wrap64 (shares - min shares q), wrap64 (cost + wrap64 (min shares q * p)),
      snd (snd (buyStep shares cost t)))"
    by (simp add: buyStep_def Let_def g pq)
  show "size_ok (snd (snd (buyStep shares cost t)))"
    using w_ok size_ok_removeByRank [OF w_ok, of 0] by (auto simp: buyStep_def Let_def g pq)
  show "tmap entry (snd (snd (buyStep shares cost t))) =
       (if wrap64 (q - min shares q) = 0 then es else (p, s, wrap64 (q - min shares q)) # es)"
    using w_e r_e by (auto simp: buyStep_def Let_def g pq)
qed

lemma buy_loop_walk64:
  "size_ok t \<Longrightarrow>
   size_ok (snd (buy_loop shares cost t)) \<and>
   (fst (buy_loop shares cost t), tmap entry (snd (buy_loop shares cost t))) =
     walk64 shares cost (tmap entry t)"
proof (induction shares cost t rule: buy_loop.induct)
  case (1 shares cost root)
  show ?case
  proof (cases "0 < shares \<and> root \<noteq> Null")
    case False
    then show ?thesis using "1.prems"
      by (cases "tmap entry root") (auto simp: buy_loop.simps [of shares cost])
  next
    case True
    then obtain x es where "tmap entry root = x # es"
      by (cases "tmap entry root") auto
    then obtain p s q where e: "tmap entry root = (p, s, q) # es"
      by (cases x) auto
    note st = buyStep_entries(1) [OF "1.prems" e, of shares cost]
      buyStep_entries(2) [OF "1.prems" e, of shares cost]
      buyStep_entries(3) [OF "1.prems" e, of shares cost]
      buyStep_entries(4) [OF "1.prems" e]
    let ?r = "snd (snd (buyStep shares cost root))"
    let ?s = "wrap64 (shares - min shares q)"
    let ?c = "wrap64 (cost + wrap64 (min shares q * p))"
    have unf: "buy_loop shares cost root = buy_loop ?s ?c ?r"
      using True st(4) by (subst buy_loop.simps, subst st(1)) simp
    have IH: "size_ok (snd (buy_loop ?s ?c ?r)) \<and>
       (fst (buy_loop ?s ?c ?r), tmap entry (snd (buy_loop ?s ?c ?r))) = walk64 ?s ?c (tmap entry ?r)"
      using "1.IH" [OF True st(4) st(1) [symmetric] refl st(2)] .
    show ?thesis
    proof (cases "wrap64 (q - min shares q) = 0")
      case z: True
      with IH st(3) True show ?thesis
        by (simp add: unf e Let_def)
    next
      case nz: False
      then have "min shares q = shares" by (cases "shares \<le> q") (simp_all add: min_def)
      then have s0: "?s = 0" by simp
      have "buy_loop ?s ?c ?r = (?c, ?r)"
        by (subst buy_loop.simps) (simp add: s0)
      with st(2,3) nz True show ?thesis
        by (simp add: unf e Let_def)
    qed
  qed
qed

lemma buy_loop_preserves:
  assumes "P t"
    and "\<And>t v. P t \<Longrightarrow> P (writeByRank (\<lambda>d. d\<lparr>sizeShares := v\<rparr>) t 0)"
    and "\<And>t. P t \<Longrightarrow> P (removeByRank t 0)"
  shows "P (snd (buy_loop shares cost t))"
  using assms(1)
proof (induction shares cost t rule: buy_loop.induct)
  case (1 shares cost root)
  show ?case
  proof (cases "0 < shares \<and> root \<noteq> Null \<and> getByRank root 0 \<noteq> Null")
    case False
    then show ?thesis using "1.prems"
      by (subst buy_loop.simps) auto
  next
    case True
    obtain s' c' r' where st: "buyStep shares cost root = (s', c', r')"
      by (cases "buyStep shares cost root") auto
    have "P r'"
      using st "1.prems" assms(2,3) by (auto simp: buyStep_def Let_def split: if_splits)
    then have "P (snd (buy_loop s' c' r'))"
      using "1.IH" [OF _ _ st [symmetric] refl] True by simp
    then show ?thesis using True st
      by (subst buy_loop.simps) simp
  qed
qed

lemma treap_inv_buy_loop: "treap_inv t \<Longrightarrow> treap_inv (snd (buy_loop shares cost t))"
  by (rule buy_loop_preserves)
    (simp_all add: treap_inv_def bst_ok_writeByRank heap_ok_writeByRank size_ok_writeByRank
      bst_ok_removeByRank heap_ok_removeByRank size_ok_removeByRank)

lemma set_tmap_key_buy_loop:
  "set (tmap key (snd (buy_loop shares cost t))) \<subseteq> set (tmap key t)"
proof (rule buy_loop_preserves [where P = "\<lambda>u. set (tmap key u) \<subseteq> set (tmap key t)"])
  show "set (tmap key t) \<subseteq> set (tmap key t)" by simp
next
  fix u v assume "set (tmap key u) \<subseteq> set (tmap key t)"
  then show "set (tmap key (writeByRank (\<lambda>d. d\<lparr>sizeShares := v\<rparr>) u 0)) \<subseteq> set (tmap key t)"
    by (simp add: tmap_writeByRank_same)
next
  fix u assume "set (tmap key u) \<subseteq> set (tmap key t)"
  then show "set (tmap key (removeByRank u 0)) \<subseteq> set (tmap key t)"
    using set_tmap_removeByRank [of key u 0] by auto
qed

lemma book_inv_newBook: "book_inv newBook"
  by (simp add: book_inv_def newBook_def treap_inv_def)

lemma key_new [simp]:
  "key \<lparr>price = p, sizeShares = sz, insertion_id = ins, priority = pr, subtree_size = n\<rparr> = (p, ins)"
  by (simp add: key_def)

lemma entry_new [simp]:
  "entry \<lparr>price = p, sizeShares = sz, insertion_id = ins, priority = pr, subtree_size = n\<rparr> = (p, ins, sz)"
  by (simp add: entry_def)

lemma treap_inv_treapInsert:
  "treap_inv t \<Longrightarrow> (p, ins) \<notin> set (tmap key t) \<Longrightarrow> treap_inv (treapInsert t pr p sz ins)"
  by (simp add: treap_inv_def bst_ok_treapInsert heap_ok_treapInsert size_ok_treapInsert)

lemma book_inv_add: "book_inv b \<Longrightarrow> book_inv (add b pr p sz)"
  unfolding book_inv_def add_def
  by (auto simp: set_tmap_treapInsert intro!: treap_inv_treapInsert)

lemma book_inv_removeByPosition: "book_inv b \<Longrightarrow> book_inv (removeByPosition b pos)"
  unfolding book_inv_def removeByPosition_def treap_inv_def
  using set_tmap_removeByRank [of key "root b" pos]
  by (auto simp: bst_ok_removeByRank heap_ok_removeByRank size_ok_removeByRank)

lemma root_buy: "root (snd (buy b shares)) = snd (buy_loop shares 0 (root b))"
  and counter_buy: "globalInsertionCounter (snd (buy b shares)) = globalInsertionCounter b"
  and fst_buy: "fst (buy b shares) = fst (buy_loop shares 0 (root b))"
  by (simp_all add: buy_def split: prod.splits)

lemma book_inv_buy: "book_inv b \<Longrightarrow> book_inv (snd (buy b shares))"
  unfolding book_inv_def root_buy counter_buy
  using set_tmap_key_buy_loop [of shares 0 "root b"]
  by (auto simp: treap_inv_buy_loop)

lemma book_inv_exec: "book_inv b \<Longrightarrow> book_inv (exec b c)"
  by (cases c) (simp_all add: book_inv_add book_inv_removeByPosition book_inv_buy)

lemma book_inv_foldl: "book_inv b \<Longrightarrow> book_inv (foldl exec b cmds)"
  by (induction cmds arbitrary: b) (simp_all add: book_inv_exec)

lemma book_inv_run: "book_inv (run cmds)"
  by (simp add: run_def book_inv_foldl book_inv_newBook)

lemma wrap64_id: "int64 x \<Longrightarrow> wrap64 x = x"
  by (simp add: wrap64_def int64_def)

lemma int64_wrap64 [simp]: "int64 (wrap64 x)"
  by (simp add: wrap64_def int64_def)

lemma wrap64_add_left [simp]: "wrap64 (wrap64 a + b) = wrap64 (a + b)"
proof -
  have 1: "wrap64 a + b + 2 ^ 63 = (a + 2 ^ 63) mod 2 ^ 64 + b"
    unfolding wrap64_def by linarith
  have 2: "a + 2 ^ 63 + b = a + b + (2 ^ 63 :: int)"
    by linarith
  have "(wrap64 a + b + 2 ^ 63) mod 2 ^ 64 = ((a + 2 ^ 63) mod 2 ^ 64 + b) mod 2 ^ 64"
    by (simp only: 1)
  also have "\<dots> = (a + 2 ^ 63 + b) mod 2 ^ 64"
    by (rule mod_add_left_eq)
  finally have "(wrap64 a + b + 2 ^ 63) mod 2 ^ 64 = (a + b + 2 ^ 63) mod 2 ^ 64"
    by (simp only: 2)
  then show ?thesis
    unfolding wrap64_def [of "wrap64 a + b"] wrap64_def [of "a + b"] by (simp only:)
qed

lemma wrap64_add_right [simp]: "wrap64 (a + wrap64 b) = wrap64 (a + b)"
  using wrap64_add_left [of b a] by (simp add: add.commute)

lemma naive_cost_nonpos [simp]: "Q \<le> 0 \<Longrightarrow> naive_cost es Q = 0"
  by (cases es) auto

lemma walk64_naive_cost:
  assumes "\<forall>(p, s, q) \<in> set es. 0 < q" and "shares < 2 ^ 63"
  shows "fst (walk64 shares (wrap64 c) es) = wrap64 (c + naive_cost es shares)"
  using assms
proof (induction es arbitrary: shares c)
  case Nil
  show ?case by simp
next
  case (Cons e es)
  obtain p s q where e: "e = (p, s, q)" by (cases e) auto
  with Cons.prems have q: "0 < q" by simp
  show ?case
  proof (cases "0 < shares")
    case False
    then show ?thesis by (simp add: e)
  next
    case True
    let ?f = "min shares q"
    have f: "0 < ?f" "?f \<le> shares" using True q by simp_all
    have "int64 (shares - ?f)"
      using True q Cons.prems(2) by (auto simp: int64_def min_def)
    then have sh: "wrap64 (shares - ?f) = shares - ?f"
      by (rule wrap64_id)
    have c': "wrap64 (c + ?f * p) = wrap64 (c + p * ?f)"
      by (simp add: mult.commute)
    show ?thesis
    proof (cases "wrap64 (q - ?f) = 0")
      case z: True
      have "fst (walk64 (shares - ?f) (wrap64 (c + p * ?f)) es)
          = wrap64 (c + p * ?f + naive_cost es (shares - ?f))"
        using Cons.prems f by (intro Cons.IH) auto
      with True z show ?thesis
        by (simp add: e Let_def sh c' add.assoc)
    next
      case nz: False
      then have m: "?f = shares" by (cases "shares \<le> q") (simp_all add: min_def)
      with True nz show ?thesis
        by (simp add: e Let_def mult.commute)
    qed
  qed
qed

lemma book_inv_addAll: "book_inv b \<Longrightarrow> book_inv (addAll b adds)"
  by (induction b adds rule: addAll.induct) (simp_all add: book_inv_add)

lemma mset_entries_addAll:
  "mset (tmap entry (root (addAll b adds))) =
     mset (tmap entry (root b)) + mset (number_from (globalInsertionCounter b) adds)"
proof (induction b adds rule: addAll.induct)
  case (1 b)
  show ?case by simp
next
  case (2 b pr p q adds)
  then show ?case
    by (simp add: add_def mset_tmap_treapInsert)
qed

lemma map_key_entries: "map (\<lambda>(p, s, q). (p, s)) (tmap entry t) = tmap key t"
  by (induction t) (simp_all add: entry_def key_def)

lemma filter_distinct_key:
  "distinct (map f xs) \<Longrightarrow> k \<in> set xs \<Longrightarrow> filter (\<lambda>x. f k = f x) xs = [k]"
proof (induction xs)
  case Nil
  then show ?case by simp
next
  case (Cons x xs)
  show ?case
  proof (cases "k = x")
    case True
    have "filter (\<lambda>y. f x = f y) xs = []"
      using Cons.prems(1) by (auto simp: filter_empty_conv)
    with True show ?thesis by simp
  next
    case False
    have nx: "f x \<notin> f ` set xs" using Cons.prems(1) by simp
    have kx: "k \<in> set xs" using Cons.prems(2) False by simp
    then have "f k \<in> f ` set xs" by (rule imageI)
    with nx have "f k \<noteq> f x" by auto
    moreover have "filter (\<lambda>y. f k = f y) xs = [k]"
      using Cons.IH Cons.prems(1) kx by simp
    ultimately show ?thesis by simp
  qed
qed

lemma sorted_key_unique:
  assumes "mset ys = mset xs" and "sorted_wrt (<) (map f ys)"
  shows "sort_key f xs = ys"
proof (rule properties_for_sort_key [OF assms(1)])
  have dy: "distinct (map f ys)" and sy: "sorted (map f ys)"
    using assms(2) by (simp_all add: strict_sorted_iff)
  show "sorted (map f ys)" by (rule sy)
  have "mset (map f xs) = mset (map f ys)" using assms(1) by simp
  then have dx: "distinct (map f xs)" using dy mset_eq_imp_distinct_iff by blast
  fix k assume k: "k \<in> set ys"
  then have "k \<in> set xs" using assms(1) mset_eq_setD by blast
  then show "filter (\<lambda>x. f k = f x) ys = filter (\<lambda>x. f k = f x) xs"
    using k dx dy by (simp add: filter_distinct_key)
qed

lemma entries_addAll_newBook:
  "tmap entry (root (addAll newBook adds)) = rank_order (number_from 0 adds)"
proof -
  have "bst_ok (root (addAll newBook adds))"
    using book_inv_addAll [OF book_inv_newBook, of adds] by (simp add: book_inv_def treap_inv_def)
  then have "sorted_wrt (<) (map (\<lambda>(p, s, q). (p, s)) (tmap entry (root (addAll newBook adds))))"
    by (simp add: map_key_entries bst_ok_def)
  moreover have "mset (tmap entry (root (addAll newBook adds))) = mset (number_from 0 adds)"
    using mset_entries_addAll [of newBook adds] by (simp add: newBook_def)
  ultimately show ?thesis
    unfolding rank_order_def by (intro sorted_key_unique [symmetric])
qed

lemma buy_walk64:
  assumes "size_ok (root b)"
  shows "fst (buy b Q) = fst (walk64 Q 0 (tmap entry (root b)))"
    and "tmap entry (root (snd (buy b Q))) = snd (walk64 Q 0 (tmap entry (root b)))"
    and "size_ok (root (snd (buy b Q)))"
proof -
  note w = buy_loop_walk64 [OF assms, of Q 0]
  from w show "fst (buy b Q) = fst (walk64 Q 0 (tmap entry (root b)))"
    by (metis fst_buy fst_conv)
  from w show "tmap entry (root (snd (buy b Q))) = snd (walk64 Q 0 (tmap entry (root b)))"
    by (metis root_buy snd_conv)
  from w show "size_ok (root (snd (buy b Q)))"
    by (simp add: root_buy)
qed

lemma size_ok_addAll_newBook: "size_ok (root (addAll newBook adds))"
  using book_inv_addAll [OF book_inv_newBook, of adds] by (simp add: book_inv_def treap_inv_def)

lemma number_from_positive:
  "\<forall>(pr, p, q) \<in> set adds. 0 < q \<Longrightarrow> \<forall>(p, s, q) \<in> set (number_from c adds). 0 < q"
  by (induction c adds rule: number_from.induct) auto

lemma buy_addAll_newBook:
  "fst (buy (addAll newBook adds) Q) = fst (walk64 Q 0 (rank_order (number_from 0 adds)))"
  "tmap entry (root (snd (buy (addAll newBook adds) Q))) =
     snd (walk64 Q 0 (rank_order (number_from 0 adds)))"
  by (simp_all only: buy_walk64 [OF size_ok_addAll_newBook] entries_addAll_newBook)


lemma tmap_singleton:
  "tmap f t = [x] \<Longrightarrow> \<exists>d. t = Node Null d Null \<and> f d = x"
  by (cases t) (auto simp: append_eq_Cons_conv)

lemma getByRank_singleton:
  assumes "size_ok t" and "tmap entry t = [(p, s, q)]"
  shows "\<exists>d. getByRank t 0 = Node Null d Null \<and> price d = p \<and> insertion_id d = s \<and>
     sizeShares d = q"
proof -
  from tmap_singleton [OF assms(2)] obtain d where "t = Node Null d Null" "entry d = (p, s, q)"
    by auto
  with assms(1) show ?thesis by (simp add: entry_def)
qed

lemma treap_inv_treapMerge:
  "treap_inv a \<Longrightarrow> treap_inv b \<Longrightarrow> \<forall>x \<in> set (tmap key a). \<forall>y \<in> set (tmap key b). x < y \<Longrightarrow>
   treap_inv (treapMerge a b)"
  by (simp add: treap_inv_def bst_ok_treapMerge heap_ok_treapMerge size_ok_treapMerge)

lemma treap_inv_treapSplit:
  "treap_inv t \<Longrightarrow>
   treap_inv (fst (treapSplit t p ins)) \<and> treap_inv (snd (treapSplit t p ins))"
  by (simp add: treap_inv_def bst_ok_treapSplit heap_ok_treapSplit size_ok_treapSplit)

lemma treap_inv_treapRemoveKey: "treap_inv t \<Longrightarrow> treap_inv (treapRemoveKey t p ins)"
  by (simp add: treap_inv_def bst_ok_treapRemoveKey heap_ok_treapRemoveKey size_ok_treapRemoveKey)

lemma treap_inv_removeByRank: "treap_inv t \<Longrightarrow> treap_inv (removeByRank t k)"
  by (simp add: treap_inv_def bst_ok_removeByRank heap_ok_removeByRank size_ok_removeByRank)

lemma treap_inv_writeByRank:
  "treap_inv t \<Longrightarrow> treap_inv (writeByRank (\<lambda>d. d\<lparr>sizeShares := v\<rparr>) t k)"
  by (simp add: treap_inv_def bst_ok_writeByRank heap_ok_writeByRank size_ok_writeByRank)

lemma treap_inv_buyStep: "treap_inv t \<Longrightarrow> treap_inv (snd (snd (buyStep shares cost t)))"
  by (simp add: buyStep_def Let_def treap_inv_writeByRank treap_inv_removeByRank)

lemma treap_inv_run: "treap_inv (root (run cmds))"
  using book_inv_run [of cmds] by (simp add: book_inv_def)

lemma size_ok_run: "size_ok (root (run cmds))"
  using treap_inv_run [of cmds] by (simp add: treap_inv_def)

lemma getSize_removeByRank:
  assumes "size_ok t" and "0 \<le> k" and "k < getSize t"
  shows "getSize (removeByRank t k) = getSize t - 1"
proof -
  have "length (tmap entry (removeByRank t k)) = length (tmap entry t) - 1"
    using assms by (simp add: tmap_removeByRank size_ok_getSize)
  moreover have "0 < size t" using assms by (simp add: size_ok_getSize)
  ultimately show ?thesis
    using size_ok_getSize [OF assms(1)] size_ok_getSize [OF size_ok_removeByRank [OF assms(1), of k]]
    by simp
qed

lemma getSize_treapInsert:
  assumes "size_ok t"
  shows "getSize (treapInsert t pr p sz ins) = getSize t + 1"
proof -
  have "size (treapInsert t pr p sz ins) = Suc (size t)"
    using mset_tmap_treapInsert [of entry t pr p sz ins, THEN arg_cong, of size] by simp
  then show ?thesis
    using size_ok_getSize [OF assms] size_ok_getSize [OF size_ok_treapInsert [OF assms, of pr p sz ins]]
    by simp
qed

lemma filter_entries_all:
  "\<forall>k \<in> set (tmap key t). P k \<Longrightarrow>
   filter (\<lambda>(p', s', q). P (p', s')) (tmap entry t) = tmap entry t"
  by (induction t) (simp_all add: entry_def key_def)

lemma filter_entries_none:
  "\<forall>k \<in> set (tmap key t). \<not> P k \<Longrightarrow>
   filter (\<lambda>(p', s', q). P (p', s')) (tmap entry t) = []"
  by (induction t) (simp_all add: entry_def key_def)

lemma entries_treapSplit:
  assumes "bst_ok t"
  shows "tmap entry (fst (treapSplit t p ins)) =
           filter (\<lambda>(p', s', q). (p', s') \<le> (p, ins)) (tmap entry t) \<and>
         tmap entry (snd (treapSplit t p ins)) =
           filter (\<lambda>(p', s', q). (p, ins) < (p', s')) (tmap entry t)"
  using assms
proof (induction t)
  case Null
  show ?case by simp
next
  case (Node l d r)
  from Node.prems have b: "bst_ok l" "bst_ok r"
    and ll: "\<forall>k \<in> set (tmap key l). k < key d" and rr: "\<forall>k \<in> set (tmap key r). key d < k"
    by (simp_all add: bst_ok_Node)
  have ed: "entry d = (price d, insertion_id d, sizeShares d)" by (simp add: entry_def)
  show ?case
  proof (cases "lessThan_key (price d) (insertion_id d) p ins \<or> (price d = p \<and> insertion_id d = ins)")
    case True
    then have le: "key d \<le> (p, ins)"
      by (auto simp: lessThan_key_iff key_def)
    have a: "\<forall>k \<in> set (tmap key l). k \<le> (p, ins)"
      using ll le by (blast intro: less_imp_le order_trans)
    then have n: "\<forall>k \<in> set (tmap key l). \<not> (p, ins) < k"
      by (blast dest: leD)
    note 1 = filter_entries_all [where P = "\<lambda>k. k \<le> (p, ins)", OF a]
    note 2 = filter_entries_none [where P = "\<lambda>k. (p, ins) < k", OF n]
    have nlt: "\<not> (p, ins) < key d" using le by (rule leD)
    from True le nlt Node.IH(2) [OF b(2)] show ?thesis
      by (simp add: Let_def 1 2 ed key_def del: less_eq_prod_simp less_prod_simp)
  next
    case False
    then have "\<not> key d < (p, ins)" and "key d \<noteq> (p, ins)"
      by (simp_all add: lessThan_key_iff key_def del: less_prod_simp)
    then have gt: "(p, ins) < key d"
      using less_linear [of "key d" "(p, ins)"] by blast
    have a: "\<forall>k \<in> set (tmap key r). (p, ins) < k"
      using rr gt by (blast intro: less_trans)
    then have n: "\<forall>k \<in> set (tmap key r). \<not> k \<le> (p, ins)"
      by (blast dest: leD)
    note 1 = filter_entries_none [where P = "\<lambda>k. k \<le> (p, ins)", OF n]
    note 2 = filter_entries_all [where P = "\<lambda>k. (p, ins) < k", OF a]
    have nle: "\<not> key d \<le> (p, ins)" using gt by (simp add: not_le del: less_prod_simp)
    have sp: "treapSplit (Node l d r) p ins =
        (fst (treapSplit l p ins), updateSize (Node (snd (treapSplit l p ins)) d r))"
      using False by (auto simp: Let_def)
    from gt nle Node.IH(1) [OF b(1)] show ?thesis
      unfolding sp by (simp add: 1 2 ed key_def del: less_eq_prod_simp less_prod_simp)
  qed
qed

lemma entryAt_nth:
  assumes "size_ok t"
  shows "entryAt t k = (if 0 \<le> k \<and> k < getSize t then Some (tmap entry t ! nat k) else None)"
proof (cases "0 \<le> k \<and> k < getSize t")
  case True
  with getByRank_in_range [OF assms, of k entry] show ?thesis
    by (auto simp: entryAt_def)
next
  case False
  then have "getByRank t k = Null"
    using getByRank_out_of_range [OF assms, of k] by auto
  with False show ?thesis by (simp add: entryAt_def)
qed


lemma walk64_suffix:
  "\<exists>k. map (\<lambda>(p, s, q). (p, s)) (snd (walk64 shares cost es))
          = drop k (map (\<lambda>(p, s, q). (p, s)) es) \<and>
       tl (snd (walk64 shares cost es)) = drop (Suc k) es"
proof (induction es arbitrary: shares cost)
  case Nil
  show ?case by simp
next
  case (Cons e es)
  obtain p s q where e: "e = (p, s, q)" by (cases e) auto
  let ?f = "min shares q"
  let ?c = "wrap64 (cost + wrap64 (?f * p))"
  let ?s = "wrap64 (shares - ?f)"
  show ?case
  proof (cases "0 < shares \<and> wrap64 (q - ?f) = 0")
    case True
    from Cons.IH [of ?s ?c] obtain k where
      k: "map (\<lambda>(p, s, q). (p, s)) (snd (walk64 ?s ?c es)) = drop k (map (\<lambda>(p, s, q). (p, s)) es)"
         "tl (snd (walk64 ?s ?c es)) = drop (Suc k) es"
      by blast
    have w: "walk64 shares cost (e # es) = walk64 ?s ?c es"
      using True by (simp add: e Let_def)
    show ?thesis
      unfolding w using k by (intro exI [of _ "Suc k"]) simp
  next
    case False
    then have "map (\<lambda>(p, s, q). (p, s)) (snd (walk64 shares cost (e # es)))
          = drop 0 (map (\<lambda>(p, s, q). (p, s)) (e # es)) \<and>
       tl (snd (walk64 shares cost (e # es))) = drop (Suc 0) (e # es)"
      by (auto simp: e Let_def)
    then show ?thesis by blast
  qed
qed

lemma key_not_in_drop:
  assumes "distinct (map f es)" and "i < k" and "i < length es"
  shows "f (es ! i) \<notin> set (drop k (map f es))"
proof -
  have "distinct (take k (map f es) @ drop k (map f es))"
    using assms(1) by simp
  then have d: "set (take k (map f es)) \<inter> set (drop k (map f es)) = {}"
    by (simp only: distinct_append)
  have "take k (map f es) ! i = map f es ! i" using assms(2) by simp
  moreover have "i < length (take k (map f es))" using assms(2,3) by simp
  ultimately have "map f es ! i \<in> set (take k (map f es))"
    by (metis nth_mem)
  then have "f (es ! i) \<in> set (take k (map f es))" using assms(3) by simp
  with d show ?thesis by blast
qed

lemma consumed_in_rank_order:
  assumes "distinct (map f es)"
    and "map f es' = drop k (map f es)" and "tl es' = drop (Suc k) es"
    and "i < j" and "j < length es" and "es ! j \<notin> set es'"
  shows "f (es ! i) \<notin> f ` set es'"
proof -
  have "j \<le> k"
  proof (rule ccontr)
    assume "\<not> j \<le> k"
    then have "Suc k \<le> j" by simp
    then have "es ! j = drop (Suc k) es ! (j - Suc k)" using assms(5) by simp
    moreover have "j - Suc k < length (drop (Suc k) es)" using assms(5) \<open>Suc k \<le> j\<close> by simp
    ultimately have "es ! j \<in> set (drop (Suc k) es)" by (metis nth_mem)
    then have "es ! j \<in> set (tl es')" by (simp only: assms(3))
    then have "es ! j \<in> set es'" by (cases es') simp_all
    with assms(6) show False by simp
  qed
  then have "i < k" using assms(4) by simp
  moreover have "i < length es" using assms(4,5) by simp
  ultimately have n: "f (es ! i) \<notin> set (drop k (map f es))"
    by (rule key_not_in_drop [OF assms(1)])
  have "set (drop k (map f es)) = f ` set es'"
    using assms(2) [symmetric] by (simp only: set_map)
  with n show ?thesis by simp
qed

lemma entries_run_sorted:
  "sorted_wrt (\<lambda>(p, s, q) (p', s', q'). p < p' \<or> (p = p' \<and> s < s')) (tmap entry (root (run cmds)))"
proof -
  have "sorted_wrt (<) (map (\<lambda>(p, s, q). (p, s)) (tmap entry (root (run cmds))))"
    using treap_inv_run [of cmds] by (simp add: treap_inv_def bst_ok_def map_key_entries)
  then have "sorted_wrt (\<lambda>x y. (case x of (p, s, q) \<Rightarrow> (p, s)) < (case y of (p, s, q) \<Rightarrow> (p, s)))
      (tmap entry (root (run cmds)))"
    by (simp only: sorted_wrt_map)
  then show ?thesis
    by (rule sorted_wrt_mono_rel [rotated]) auto
qed


lemma fifo_instance:
  "let b = add (add newBook pr1 10 5) pr2 10 3;
       step1 = buyStep 6 0 (root b);
       step2 = buyStep (fst step1) (fst (snd step1)) (snd (snd step1));
       b' = snd (buy b 6)
   in tmap entry (root b) = [(10, 0, 5), (10, 1, 3)] \<and>
      fst step1 = 1 \<and> fst (snd step1) = 50 \<and> tmap entry (snd (snd step1)) = [(10, 1, 3)] \<and>
      fst step2 = 0 \<and> fst (snd step2) = 60 \<and> tmap entry (snd (snd step2)) = [(10, 1, 2)] \<and>
      fst (buy b 6) = 60 \<and>
      tmap entry (root b') = [(10, 1, 2)] \<and>
      (\<exists>d. getByRank (root b') 0 = Node Null d Null \<and>
           price d = 10 \<and> insertion_id d = 1 \<and> sizeShares d = 2) \<and>
      getSize (root b') = 1"
proof -
  let ?b = "add (add newBook pr1 10 5) pr2 10 3"
  have e: "tmap entry (root ?b) = [(10, 0, 5), (10, 1, 3)]"
    using entries_addAll_newBook [of "[(pr1, 10, 5), (pr2, 10, 3)]"] by (simp add: rank_order_def)
  have ok: "size_ok (root ?b)"
    using size_ok_addAll_newBook [of "[(pr1, 10, 5), (pr2, 10, 3)]"] by simp
  note s1 = buyStep_entries(1) [OF ok e, of 6 0] buyStep_entries(2) [OF ok e, of 6 0]
    buyStep_entries(3) [OF ok e, of 6 0]
  have s1a: "fst (buyStep 6 0 (root ?b)) = 1" "fst (snd (buyStep 6 0 (root ?b))) = 50"
    by (subst s1(1), simp add: wrap64_def)+
  have e1: "tmap entry (snd (snd (buyStep 6 0 (root ?b)))) = [(10, 1, 3)]"
    using s1(3) by simp
  note s2 = buyStep_entries(1) [OF s1(2) e1, of 1 50] buyStep_entries(2) [OF s1(2) e1, of 1 50]
    buyStep_entries(3) [OF s1(2) e1, of 1 50]
  have s2a: "fst (buyStep 1 50 (snd (snd (buyStep 6 0 (root ?b))))) = 0"
    "fst (snd (buyStep 1 50 (snd (snd (buyStep 6 0 (root ?b)))))) = 60"
    by (subst s2(1), simp add: wrap64_def)+
  have e2: "tmap entry (snd (snd (buyStep 1 50 (snd (snd (buyStep 6 0 (root ?b))))))) = [(10, 1, 2)]"
    using s2(3) by (simp add: wrap64_def)
  have c: "fst (buy ?b 6) = 60"
    by (simp add: buy_walk64(1) [OF ok] e wrap64_def)
  have e': "tmap entry (root (snd (buy ?b 6))) = [(10, 1, 2)]"
    by (simp add: buy_walk64(2) [OF ok] e wrap64_def)
  have ok': "size_ok (root (snd (buy ?b 6)))" by (rule buy_walk64(3) [OF ok])
  have g: "\<exists>d. getByRank (root (snd (buy ?b 6))) 0 = Node Null d Null \<and>
           price d = 10 \<and> insertion_id d = 1 \<and> sizeShares d = 2"
    by (rule getByRank_singleton [OF ok' e'])
  have n: "getSize (root (snd (buy ?b 6))) = 1"
    using arg_cong [OF e', of length] by (simp add: size_ok_getSize [OF ok'])
  show ?thesis
    unfolding Let_def s1a s2a using e e1 e2 c e' g n by simp
qed

lemma buy_run_in_rank_order:
  "let b = run cmds; es = tmap entry (root b); es' = tmap entry (root (snd (buy b Q))) in
     sorted_wrt (\<lambda>(p, s, q) (p', s', q'). p < p' \<or> (p = p' \<and> s < s')) es \<and>
     (\<forall>i j. i < j \<and> j < length es \<and> fst (es ! i) = fst (es ! j) \<longrightarrow>
        fst (snd (es ! i)) < fst (snd (es ! j))) \<and>
     (\<forall>e \<in> set es. fst (snd e) < globalInsertionCounter b) \<and>
     (fst (buy b Q), es') = walk64 Q 0 es \<and>
     (\<exists>k. map (\<lambda>(p, s, q). (p, s)) es' = drop k (map (\<lambda>(p, s, q). (p, s)) es) \<and>
          tl es' = drop (Suc k) es) \<and>
     (\<forall>i j. i < j \<and> j < length es \<and> es ! j \<notin> set es' \<longrightarrow>
        (\<lambda>(p, s, q). (p, s)) (es ! i) \<notin> (\<lambda>(p, s, q). (p, s)) ` set es')"
proof -
  let ?b = "run cmds"
  let ?es = "tmap entry (root ?b)"
  let ?es' = "tmap entry (root (snd (buy ?b Q)))"
  let ?kf = "\<lambda>(p, s, q). (p, s) :: int \<times> int"
  have srt: "sorted_wrt (\<lambda>(p, s, q) (p', s', q'). p < p' \<or> (p = p' \<and> s < s')) ?es"
    by (rule entries_run_sorted)
  have seq: "fst (snd (?es ! i)) < fst (snd (?es ! j))"
    if "i < j" "j < length ?es" "fst (?es ! i) = fst (?es ! j)" for i j
    using sorted_wrt_nth_less [OF srt that(1,2)] that(3)
    by (cases "?es ! i"; cases "?es ! j") auto
  have cnt: "\<forall>e \<in> set ?es. fst (snd e) < globalInsertionCounter ?b"
  proof
    fix e assume "e \<in> set ?es"
    then have "?kf e \<in> set (map ?kf ?es)" by (simp only: set_map image_eqI)
    then have "?kf e \<in> set (tmap key (root ?b))" by (simp only: map_key_entries)
    with book_inv_run [of cmds] have "snd (?kf e) < globalInsertionCounter ?b"
      by (simp add: book_inv_def)
    then show "fst (snd e) < globalInsertionCounter ?b" by (cases e) auto
  qed
  have w: "(fst (buy ?b Q), ?es') = walk64 Q 0 ?es"
    by (simp add: buy_walk64(1,2) [OF size_ok_run])
  from walk64_suffix [of Q 0 ?es] obtain k where
    k: "map ?kf ?es' = drop k (map ?kf ?es)" "tl ?es' = drop (Suc k) ?es"
    by (auto simp: buy_walk64(2) [OF size_ok_run])
  have "sorted_wrt (<) (map ?kf ?es)"
    using treap_inv_run [of cmds] by (simp add: treap_inv_def bst_ok_def map_key_entries)
  then have dist: "distinct (map ?kf ?es)" by (simp add: strict_sorted_iff)
  have fifo: "?kf (?es ! i) \<notin> ?kf ` set ?es'"
    if "i < j" "j < length ?es" "?es ! j \<notin> set ?es'" for i j
    by (rule consumed_in_rank_order [OF dist k that])
  show ?thesis
    unfolding Let_def using srt seq cnt w k fifo by blast
qed

section \<open>The claims\<close>

text \<open>
  C1 (as amended). For every sequence of \<open>add\<close> calls, each with a positive quantity,
  followed by one \<open>buy Q\<close> with \<open>Q\<close> at most the total resting quantity, the cost that
  \<open>buy\<close> returns equals the cost of the naive reference walk (the resting orders in
  ascending \<open>(price, sequence)\<close> order, filled greedily until \<open>Q\<close> units are taken, summing
  price times units taken in exact integers), provided \<open>Q\<close> is a \<open>long long\<close> value and
  the exact reference cost lies in the signed 64-bit range of the returned
  \<open>long long\<close>. The priorities drawn for the nodes are arbitrary.
\<close>

theorem buy_cost_matches_naive_walk:
  assumes "\<forall>(pr, p, q) \<in> set adds. 0 < q"
    and "Q \<le> sum_list (map (\<lambda>(pr, p, q). q) adds)"
    and "int64 Q"
    and "int64 (naive_cost (rank_order (number_from 0 adds)) Q)"
  shows "fst (buy (addAll newBook adds) Q) = naive_cost (rank_order (number_from 0 adds)) Q"
proof -
  let ?es = "rank_order (number_from 0 adds)"
  have pos: "\<forall>(p, s, q) \<in> set ?es. 0 < q"
    using number_from_positive [OF assms(1), of 0] by (simp add: rank_order_def)
  have "fst (buy (addAll newBook adds) Q) = fst (walk64 Q (wrap64 0) ?es)"
    by (simp add: buy_walk64(1) [OF size_ok_addAll_newBook] entries_addAll_newBook)
  also have "\<dots> = wrap64 (0 + naive_cost ?es Q)"
    using assms(3) by (intro walk64_naive_cost [OF pos]) (simp add: int64_def)
  also have "\<dots> = naive_cost ?es Q"
    using assms(4) by (simp add: wrap64_id)
  finally show ?thesis .
qed

theorem buy_cost_matches_naive_walk_witness:
  "fst (buy (addAll newBook [(5, 10, 5), (3, 10, 3), (9, 8, 2)]) 6) = 56 \<and>
   naive_cost (rank_order (number_from 0 [(5, 10, 5), (3, 10, 3), (9, 8, 2)])) 6 = 56"
  using buy_cost_matches_naive_walk [of "[(5, 10, 5), (3, 10, 3), (9, 8, 2)]" 6]
  by (simp add: rank_order_def int64_def)

text \<open>
  The claim as stated, with the cost equal to the exact sum for every such sequence,
  fails where the exact sum leaves the range of \<open>long long\<close>: after one add of
  \<open>2 ^ 62\<close> units at price 3, buying \<open>2 ^ 62\<close> units has the exact cost \<open>3 * 2 ^ 62\<close>,
  which no \<open>long long\<close> holds; the 64-bit accumulator returns \<open>- (2 ^ 62)\<close>.
\<close>

theorem buy_cost_overflow_counterexample:
  "fst (buy (addAll newBook [(0, 3, 4611686018427387904)]) 4611686018427387904)
     = - 4611686018427387904 \<and>
   naive_cost (rank_order (number_from 0 [(0, 3, 4611686018427387904)])) 4611686018427387904
     = 13835058055282163712"
  by (simp add: buy_addAll_newBook rank_order_def wrap64_def del: addAll.simps)




text \<open>
  C3. Orders are consumed by \<open>buy\<close> (executeMarket) in rank order, and at equal price
  that is FIFO. For every book reached from the empty book and every request \<open>Q\<close>: the
  resting orders in rank order are sorted by price and then by sequence number, so of
  two orders at the same price the one inserted earlier comes first (every resting
  sequence number is below the counter that the next \<open>add\<close> assigns); \<open>buy\<close> returns the
  cost and leaves the orders of the walk over that list from its front; what is left
  is a suffix of the list in which only the first order can have a changed quantity;
  and an order is touched only when every order ranked before it is gone. After a
  sequence of adds the list holds every added order, numbered in the order of the adds.
  The instance of the claim: starting from the empty book, after \<open>add\<close> of (price 10,
  quantity 5) and then of (price 10, quantity 3), whatever priorities the two nodes
  draw, the first iteration of \<open>buy 6\<close> consumes the first order whole (cost 50, 1 unit
  still requested), the second takes 1 unit of the second order (cost 60 in total),
  \<open>buy 6\<close> returns 60, and the book is left with exactly one resting order, the second
  one (sequence 1), with price 10 and quantity 2, found at rank 0.
\<close>

theorem buy_fifo_at_equal_price:
  "(let b = run cmds; es = tmap entry (root b); es' = tmap entry (root (snd (buy b Q))) in
     sorted_wrt (\<lambda>(p, s, q) (p', s', q'). p < p' \<or> (p = p' \<and> s < s')) es \<and>
     (\<forall>i j. i < j \<and> j < length es \<and> fst (es ! i) = fst (es ! j) \<longrightarrow>
        fst (snd (es ! i)) < fst (snd (es ! j))) \<and>
     (\<forall>e \<in> set es. fst (snd e) < globalInsertionCounter b) \<and>
     (fst (buy b Q), es') = walk64 Q 0 es \<and>
     (\<exists>k. map (\<lambda>(p, s, q). (p, s)) es' = drop k (map (\<lambda>(p, s, q). (p, s)) es) \<and>
          tl es' = drop (Suc k) es) \<and>
     (\<forall>i j. i < j \<and> j < length es \<and> es ! j \<notin> set es' \<longrightarrow>
        (\<lambda>(p, s, q). (p, s)) (es ! i) \<notin> (\<lambda>(p, s, q). (p, s)) ` set es')) \<and>
   tmap entry (root (addAll newBook adds)) = rank_order (number_from 0 adds) \<and>
   (let b = add (add newBook pr1 10 5) pr2 10 3;
       step1 = buyStep 6 0 (root b);
       step2 = buyStep (fst step1) (fst (snd step1)) (snd (snd step1));
       b' = snd (buy b 6)
   in tmap entry (root b) = [(10, 0, 5), (10, 1, 3)] \<and>
      fst step1 = 1 \<and> fst (snd step1) = 50 \<and> tmap entry (snd (snd step1)) = [(10, 1, 3)] \<and>
      fst step2 = 0 \<and> fst (snd step2) = 60 \<and> tmap entry (snd (snd step2)) = [(10, 1, 2)] \<and>
      fst (buy b 6) = 60 \<and>
      tmap entry (root b') = [(10, 1, 2)] \<and>
      (\<exists>d. getByRank (root b') 0 = Node Null d Null \<and>
           price d = 10 \<and> insertion_id d = 1 \<and> sizeShares d = 2) \<and>
      getSize (root b') = 1)"
  using buy_run_in_rank_order [of cmds Q] entries_addAll_newBook [of adds]
    fifo_instance [of pr1 pr2]
  by (simp only: simp_thms)

theorem buy_fifo_at_equal_price_witness:
  "tmap entry (root (run [Add 1 10 5, Add 9 10 3, Add 4 10 2]))
     = [(10, 0, 5), (10, 1, 3), (10, 2, 2)] \<and>
   fst (buy (run [Add 1 10 5, Add 9 10 3, Add 4 10 2]) 6) = 60 \<and>
   tmap entry (root (snd (buy (run [Add 1 10 5, Add 9 10 3, Add 4 10 2]) 6)))
     = [(10, 1, 2), (10, 2, 2)]"
proof -
  have e: "tmap entry (root (run [Add 1 10 5, Add 9 10 3, Add 4 10 2]))
     = [(10, 0, 5), (10, 1, 3), (10, 2, 2)]"
    by (simp add: run_def add_def newBook_def lessThan_key_def entry_def)
  from buy_fifo_at_equal_price [of "[Add 1 10 5, Add 9 10 3, Add 4 10 2]" 6 "[]" 0 0]
  have "(fst (buy (run [Add 1 10 5, Add 9 10 3, Add 4 10 2]) 6),
         tmap entry (root (snd (buy (run [Add 1 10 5, Add 9 10 3, Add 4 10 2]) 6))))
        = walk64 6 0 (tmap entry (root (run [Add 1 10 5, Add 9 10 3, Add 4 10 2])))"
    unfolding Let_def by blast
  then show ?thesis
    unfolding e by (simp add: wrap64_def)
qed

text \<open>
  C4. Every tree mutation keeps the three structural invariants (\<open>treap_inv\<close>): the
  in-order keys \<open>(price, insertion_id)\<close> are strictly increasing in the lexicographic
  order (\<open>bst_ok\<close>), the priority of every parent is greater than or equal to the
  priority of each of its children (\<open>heap_ok\<close>), and every stored \<open>subtree_size\<close> is
  \<open>1 + getSize left + getSize right\<close> (\<open>size_ok\<close>). This holds for insertion of a key that
  the tree does not hold yet (\<open>add\<close> always passes a fresh insertion id), for the merge
  of two trees with all keys of the first below all keys of the second, for both results
  of a split, for removal by key and by rank, for the in-place write to \<open>sizeShares\<close>,
  for one iteration and for the whole loop of \<open>buy\<close>; and so the tree of the book
  satisfies them after every sequence of commands.
\<close>

theorem treap_invariants_preserved:
  "(treap_inv t \<and> (p, ins) \<notin> set (tmap key t) \<longrightarrow> treap_inv (treapInsert t pr p sz ins)) \<and>
   (treap_inv L \<and> treap_inv R \<and> (\<forall>x \<in> set (tmap key L). \<forall>y \<in> set (tmap key R). x < y)
      \<longrightarrow> treap_inv (treapMerge L R)) \<and>
   (treap_inv t \<longrightarrow>
      treap_inv (fst (treapSplit t p ins)) \<and> treap_inv (snd (treapSplit t p ins)) \<and>
      treap_inv (treapRemoveKey t p ins) \<and>
      treap_inv (removeByRank t k) \<and>
      treap_inv (writeByRank (\<lambda>d. d\<lparr>sizeShares := v\<rparr>) t k) \<and>
      treap_inv (snd (snd (buyStep shares cost t))) \<and>
      treap_inv (snd (buy_loop shares cost t))) \<and>
   treap_inv (root (run cmds))"
  by (simp add: treap_inv_treapInsert treap_inv_treapMerge treap_inv_treapSplit
      treap_inv_treapRemoveKey treap_inv_removeByRank treap_inv_writeByRank treap_inv_buyStep
      treap_inv_buy_loop treap_inv_run)

theorem treap_invariants_preserved_witness:
  "let T = treapInsert (treapInsert Null 7 10 5 0) 4 9 3 1;
       L = treapInsert Null 2 1 6 5;
       R = treapInsert Null 9 20 8 6
   in treap_inv T \<and> treap_inv L \<and> treap_inv R \<and>
      treap_inv (treapInsert T 5 8 0 2) \<and>
      treap_inv (treapMerge L R) \<and>
      treap_inv (fst (treapSplit T 9 1)) \<and> treap_inv (snd (treapSplit T 9 1)) \<and>
      treap_inv (treapRemoveKey T 9 1) \<and>
      treap_inv (removeByRank T 0) \<and>
      treap_inv (writeByRank (\<lambda>d. d\<lparr>sizeShares := 1\<rparr>) T 0) \<and>
      treap_inv (snd (snd (buyStep 4 0 T))) \<and>
      treap_inv (snd (buy_loop 4 0 T)) \<and>
      treap_inv (root (run [Add 7 10 5, Add 4 9 3, Buy 4, Remove 0]))"
  using treap_invariants_preserved [where t = "treapInsert (treapInsert Null 7 10 5 0) 4 9 3 1"
      and p = 8 and ins = 2 and pr = 5 and sz = 0
      and L = "treapInsert Null 2 1 6 5" and R = "treapInsert Null 9 20 8 6"
      and k = 0 and v = 1 and shares = 4 and cost = 0
      and cmds = "[Add 7 10 5, Add 4 9 3, Buy 4, Remove 0]"]
    treap_invariants_preserved [where t = "treapInsert (treapInsert Null 7 10 5 0) 4 9 3 1"
      and p = 9 and ins = 1 and k = 0 and v = 1 and shares = 4 and cost = 0]
  by (simp add: treap_inv_def bst_ok_def Let_def lessThan_key_def key_def)

text \<open>
  C5. For every book state reached from the empty book and every rank outside
  \<open>[0, size())\<close>, \<open>removeByPosition\<close> (cancelAtRank) changes nothing: the book after the
  call is the book before it, node for node, and the call returns normally. The same
  holds for \<open>removeByRank\<close> on every tree with consistent subtree sizes.
\<close>

theorem removeByRank_out_of_range_noop:
  "(size_ok t \<and> (k < 0 \<or> getSize t \<le> k) \<longrightarrow> removeByRank t k = t) \<and>
   (pos < 0 \<or> getSize (root (run cmds)) \<le> pos \<longrightarrow>
      removeByPosition (run cmds) pos = run cmds)"
proof (intro conjI impI)
  assume "size_ok t \<and> (k < 0 \<or> getSize t \<le> k)"
  then show "removeByRank t k = t" by (simp add: removeByRank_out_of_range)
next
  assume "pos < 0 \<or> getSize (root (run cmds)) \<le> pos"
  then have "removeByRank (root (run cmds)) pos = root (run cmds)"
    by (rule removeByRank_out_of_range [OF size_ok_run])
  then show "removeByPosition (run cmds) pos = run cmds"
    by (simp add: removeByPosition_def)
qed

theorem removeByRank_out_of_range_noop_witness:
  "removeByRank (treapInsert (treapInsert Null 7 10 5 0) 4 9 3 1) 2
     = treapInsert (treapInsert Null 7 10 5 0) 4 9 3 1 \<and>
   removeByPosition (run [Add 7 10 5, Add 4 9 3]) (- 1) = run [Add 7 10 5, Add 4 9 3] \<and>
   removeByPosition (run [Add 7 10 5, Add 4 9 3]) 2 = run [Add 7 10 5, Add 4 9 3]"
  using removeByRank_out_of_range_noop [of "treapInsert (treapInsert Null 7 10 5 0) 4 9 3 1" 2
      "- 1" "[Add 7 10 5, Add 4 9 3]"]
    removeByRank_out_of_range_noop [of Null 0 2 "[Add 7 10 5, Add 4 9 3]"]
  by (simp add: run_def add_def newBook_def lessThan_key_def)

text \<open>
  C6. \<open>getByRank\<close> is total. On every tree with consistent subtree sizes, \<open>getSize\<close> is
  the number of nodes; for a rank in \<open>[0, getSize t)\<close> the lookup returns the node at that
  position of the in-order traversal (its order and its key), and for every other rank
  it returns \<open>Null\<close>. When the keys are in order, a smaller rank is a smaller key, so
  rank 0 is the best order.
\<close>

theorem getByRank_total:
  assumes "size_ok t"
  shows "getSize t = int (length (tmap entry t)) \<and>
    (if 0 \<le> k \<and> k < getSize t
     then \<exists>l d r. getByRank t k = Node l d r \<and> entry d = tmap entry t ! nat k \<and>
            key d = tmap key t ! nat k
     else getByRank t k = Null) \<and>
    (bst_ok t \<and> 0 \<le> i \<and> i < j \<and> j < getSize t \<longrightarrow>
       key (node (getByRank t i)) < key (node (getByRank t j)))"
proof (intro conjI impI)
  show "getSize t = int (length (tmap entry t))"
    using assms by (simp add: size_ok_getSize)
next
  show "if 0 \<le> k \<and> k < getSize t
     then \<exists>l d r. getByRank t k = Node l d r \<and> entry d = tmap entry t ! nat k \<and>
            key d = tmap key t ! nat k
     else getByRank t k = Null"
  proof (cases "0 \<le> k \<and> k < getSize t")
    case True
    from getByRank_in_range [OF assms, of k entry] True
    obtain l d r where g: "getByRank t k = Node l d r" "entry d = tmap entry t ! nat k"
      by auto
    from getByRank_in_range [OF assms, of k key] True g(1)
    have "key d = tmap key t ! nat k" by auto
    with g True show ?thesis by simp
  next
    case False
    then have "getByRank t k = Null"
      using getByRank_out_of_range [OF assms, of k] by auto
    with False show ?thesis by simp
  qed
next
  assume a: "bst_ok t \<and> 0 \<le> i \<and> i < j \<and> j < getSize t"
  then have r: "0 \<le> i" "i < getSize t" "0 \<le> j" "j < getSize t" by simp_all
  from getByRank_in_range [OF assms r(1,2), of key]
  have ki: "key (node (getByRank t i)) = tmap key t ! nat i" by auto
  from getByRank_in_range [OF assms r(3,4), of key]
  have kj: "key (node (getByRank t j)) = tmap key t ! nat j" by auto
  have n: "nat i < nat j" "nat j < length (tmap key t)"
    using a size_ok_getSize [OF assms] by auto
  have "sorted_wrt (<) (tmap key t)" using a by (simp add: bst_ok_def)
  then have "tmap key t ! nat i < tmap key t ! nat j"
    using n by (rule sorted_wrt_nth_less)
  then show "key (node (getByRank t i)) < key (node (getByRank t j))"
    by (simp only: ki kj)
qed

theorem getByRank_total_witness:
  "getSize (treapInsert (treapInsert Null 7 10 5 0) 4 9 3 1) = 2 \<and>
   (\<exists>l d r. getByRank (treapInsert (treapInsert Null 7 10 5 0) 4 9 3 1) 1 = Node l d r \<and>
      entry d = (10, 0, 5)) \<and>
   getByRank (treapInsert (treapInsert Null 7 10 5 0) 4 9 3 1) 2 = Null \<and>
   getByRank (treapInsert (treapInsert Null 7 10 5 0) 4 9 3 1) (- 1) = Null \<and>
   key (node (getByRank (treapInsert (treapInsert Null 7 10 5 0) 4 9 3 1) 0))
     < key (node (getByRank (treapInsert (treapInsert Null 7 10 5 0) 4 9 3 1) 1))"
  using getByRank_total [of "treapInsert (treapInsert Null 7 10 5 0) 4 9 3 1" 1 0 1]
    getByRank_total [of "treapInsert (treapInsert Null 7 10 5 0) 4 9 3 1" 2 0 1]
    getByRank_total [of "treapInsert (treapInsert Null 7 10 5 0) 4 9 3 1" "- 1" 0 1]
  by (simp add: lessThan_key_def bst_ok_def key_def entry_def)

text \<open>
  C7 (as amended). For every tree whose in-order keys are strictly increasing and every
  key \<open>(p, ins)\<close>, \<open>treapSplit\<close> returns a pair whose first tree holds, in order, exactly
  the orders with key less than or equal to \<open>(p, ins)\<close> and whose second tree holds
  exactly the orders with a greater key. Removal does not use it: \<open>treapRemoveKey\<close> and
  \<open>removeByRank\<close> replace the node they remove by the merge of its two children.
\<close>

theorem treapSplit_partitions:
  assumes "bst_ok t"
  shows "tmap entry (fst (treapSplit t p ins)) =
           filter (\<lambda>(p', s', q). (p', s') \<le> (p, ins)) (tmap entry t) \<and>
         tmap entry (snd (treapSplit t p ins)) =
           filter (\<lambda>(p', s', q). (p, ins) < (p', s')) (tmap entry t) \<and>
         treapRemoveKey (Node l d r) (price d) (insertion_id d) = treapMerge l r \<and>
         removeByRank (Node l d r) (getSize l) = treapMerge l r"
  using entries_treapSplit [OF assms, of p ins] by simp

theorem treapSplit_partitions_witness:
  "tmap entry (fst (treapSplit (root (run [Add 7 10 5, Add 4 9 3, Add 6 11 2])) 10 0))
     = [(9, 1, 3), (10, 0, 5)] \<and>
   tmap entry (snd (treapSplit (root (run [Add 7 10 5, Add 4 9 3, Add 6 11 2])) 10 0))
     = [(11, 2, 2)]"
  using treapSplit_partitions [of "root (run [Add 7 10 5, Add 4 9 3, Add 6 11 2])" 10 0]
  by (simp add: run_def add_def newBook_def lessThan_key_def bst_ok_def key_def entry_def)

text \<open>
  The claim says that removal uses split. In the source \<open>treapSplit\<close> has no caller, and
  the difference shows in the tree that removal builds. The adds below, with the
  priorities 5, 5 and 1, give the keys \<open>(1, 0)\<close> at the root, \<open>(3, 1)\<close> as its right child
  and \<open>(2, 2)\<close> below that. \<open>treapRemoveKey\<close> of \<open>(2, 2)\<close> leaves the root in place; a
  removal through split and merge cuts the tree between the two equal priorities and
  merges it back with \<open>(3, 1)\<close> at the root.
\<close>

theorem removal_not_by_split_counterexample:
  "price (node (treapRemoveKey (root (run [Add 5 1 1, Add 5 3 1, Add 1 2 1])) 2 2)) = 1 \<and>
   price (node (removeKey_by_split (root (run [Add 5 1 1, Add 5 3 1, Add 1 2 1])) 2 2)) = 3 \<and>
   treapRemoveKey (root (run [Add 5 1 1, Add 5 3 1, Add 1 2 1])) 2 2
     \<noteq> removeKey_by_split (root (run [Add 5 1 1, Add 5 3 1, Add 1 2 1])) 2 2"
  by (simp add: run_def add_def newBook_def lessThan_key_def removeKey_by_split_def Let_def)

text \<open>
  C8. For every book reached from the empty book and every rank \<open>r\<close> in \<open>[0, size())\<close>,
  \<open>removeByPosition r\<close> (cancelAtRank) removes exactly the order at rank \<open>r\<close>: the orders
  in rank order are those before the call without the one at position \<open>r\<close>, the size
  drops by one, every rank below \<open>r\<close> holds the same order (price, sequence, quantity)
  as before, and every rank from \<open>r\<close> on holds the order that was one rank higher.
\<close>

theorem removeByPosition_shifts_ranks:
  assumes "0 \<le> r" and "r < getSize (root (run cmds))"
  shows "let b = run cmds; b' = removeByPosition b r; es = tmap entry (root b) in
     tmap entry (root b') = take (nat r) es @ drop (Suc (nat r)) es \<and>
     entryAt (root b) r = Some (es ! nat r) \<and>
     getSize (root b') = getSize (root b) - 1 \<and>
     (\<forall>j. j < r \<longrightarrow> entryAt (root b') j = entryAt (root b) j) \<and>
     (\<forall>j. r \<le> j \<longrightarrow> entryAt (root b') j = entryAt (root b) (j + 1)) \<and>
     globalInsertionCounter b' = globalInsertionCounter b"
proof -
  let ?t = "root (run cmds)"
  let ?t' = "removeByRank ?t r"
  let ?es = "tmap entry ?t"
  have ok: "size_ok ?t" by (rule size_ok_run)
  have ok': "size_ok ?t'" by (rule size_ok_removeByRank [OF ok])
  have n: "getSize ?t = int (length ?es)" using ok by (simp add: size_ok_getSize)
  have e': "tmap entry ?t' = take (nat r) ?es @ drop (Suc (nat r)) ?es"
    using assms by (intro tmap_removeByRank [OF _ ok]) simp_all
  have n': "getSize ?t' = getSize ?t - 1"
    by (rule getSize_removeByRank [OF ok assms])
  have at_r: "entryAt ?t r = Some (?es ! nat r)"
    using assms by (simp add: entryAt_nth [OF ok])
  have low: "entryAt ?t' j = entryAt ?t j" if "j < r" for j
  proof (cases "0 \<le> j")
    case True
    then have "nat j < nat r" "nat j < length ?es" using that assms n by simp_all
    then have "tmap entry ?t' ! nat j = ?es ! nat j"
      by (simp add: e' nth_append)
    with True that assms n' show ?thesis
      by (simp add: entryAt_nth [OF ok] entryAt_nth [OF ok'])
  next
    case False
    then show ?thesis by (simp add: entryAt_nth [OF ok] entryAt_nth [OF ok'])
  qed
  have high: "entryAt ?t' j = entryAt ?t (j + 1)" if "r \<le> j" for j
  proof (cases "j < getSize ?t - 1")
    case True
    have l: "length (take (nat r) ?es) = nat r" using assms n by simp
    have ge: "\<not> nat j < nat r" and su: "Suc (nat r) + (nat j - nat r) = nat (j + 1)"
      using that assms by simp_all
    have rs: "nat r \<le> size ?t" "nat r \<le> nat j"
      using that assms n by simp_all
    have "tmap entry ?t' ! nat j = drop (Suc (nat r)) ?es ! (nat j - nat r)"
      unfolding e' nth_append using rs that by (simp add: min_absorb2 not_less)
    also have "\<dots> = ?es ! (Suc (nat r) + (nat j - nat r))"
      using assms n by (intro nth_drop) simp
    finally have "tmap entry ?t' ! nat j = ?es ! nat (j + 1)"
      by (simp only: su)
    with True that assms n' show ?thesis
      by (simp add: entryAt_nth [OF ok] entryAt_nth [OF ok'])
  next
    case False
    with that assms n' show ?thesis
      by (simp add: entryAt_nth [OF ok] entryAt_nth [OF ok'])
  qed
  show ?thesis
    unfolding Let_def using e' at_r n' low high by (simp add: removeByPosition_def)
qed

theorem removeByPosition_shifts_ranks_witness:
  "tmap entry (root (run [Add 7 10 5, Add 4 9 3, Add 6 11 2])) = [(9, 1, 3), (10, 0, 5), (11, 2, 2)] \<and>
   tmap entry (root (removeByPosition (run [Add 7 10 5, Add 4 9 3, Add 6 11 2]) 1))
     = [(9, 1, 3), (11, 2, 2)] \<and>
   entryAt (root (removeByPosition (run [Add 7 10 5, Add 4 9 3, Add 6 11 2]) 1)) 0 = Some (9, 1, 3) \<and>
   entryAt (root (removeByPosition (run [Add 7 10 5, Add 4 9 3, Add 6 11 2]) 1)) 1 = Some (11, 2, 2) \<and>
   getSize (root (removeByPosition (run [Add 7 10 5, Add 4 9 3, Add 6 11 2]) 1)) = 2"
  using removeByPosition_shifts_ranks [of 1 "[Add 7 10 5, Add 4 9 3, Add 6 11 2]"]
  by (simp add: run_def add_def newBook_def lessThan_key_def removeByPosition_def entryAt_def
      entry_def Let_def)

text \<open>
  C9. For every book state, \<open>buy\<close> (executeMarket) called with a requested quantity
  less than or equal to zero returns cost 0 and leaves the book completely unchanged:
  the loop condition \<open>shares > 0\<close> fails at once.
\<close>

theorem buy_nonpositive_noop: "shares \<le> 0 \<Longrightarrow> buy b shares = (0, b)"
  by (simp add: buy_def buy_loop.simps [of shares])

theorem buy_nonpositive_noop_witness:
  "(- 3 :: int) \<le> 0 \<and> buy (add newBook 1 10 5) (- 3) = (0, add newBook 1 10 5)"
  using buy_nonpositive_noop [of "- 3" "add newBook 1 10 5"] by simp

text \<open>
  C10. \<open>add\<close> (addOrder) does not check the quantity. For every book reached from the
  empty book, every price and every quantity, zero and negative ones included, and
  every drawn priority, the call inserts one resting order with exactly that price and
  quantity and the next sequence number: the orders of the tree are those before the
  call plus the new one, the new order is found at some rank, and the size of the tree
  grows by one.
\<close>

theorem add_accepts_any_quantity:
  "let b = run cmds; b' = add b pr p q in
     mset (tmap entry (root b')) =
       add_mset (p, globalInsertionCounter b, q) (mset (tmap entry (root b))) \<and>
     (\<exists>k. entryAt (root b') k = Some (p, globalInsertionCounter b, q)) \<and>
     getSize (root b') = getSize (root b) + 1 \<and>
     globalInsertionCounter b' = globalInsertionCounter b + 1"
proof -
  let ?b = "run cmds"
  let ?t' = "treapInsert (root ?b) pr p q (globalInsertionCounter ?b)"
  have ok: "size_ok (root ?b)" by (rule size_ok_run)
  have ok': "size_ok ?t'" by (rule size_ok_treapInsert [OF ok])
  have m: "mset (tmap entry ?t') =
       add_mset (p, globalInsertionCounter ?b, q) (mset (tmap entry (root ?b)))"
    by (simp add: mset_tmap_treapInsert)
  then have "(p, globalInsertionCounter ?b, q) \<in> set (tmap entry ?t')"
    by (metis mset_eq_setD set_mset_mset union_single_eq_member)
  then obtain i where i: "i < length (tmap entry ?t')"
      "tmap entry ?t' ! i = (p, globalInsertionCounter ?b, q)"
    by (auto simp: in_set_conv_nth)
  then have "entryAt ?t' (int i) = Some (p, globalInsertionCounter ?b, q)"
    by (simp add: entryAt_nth [OF ok'] size_ok_getSize [OF ok'])
  then have ex: "\<exists>k. entryAt ?t' k = Some (p, globalInsertionCounter ?b, q)" ..
  have n: "getSize ?t' = getSize (root ?b) + 1" by (rule getSize_treapInsert [OF ok])
  show ?thesis
    unfolding Let_def using m ex n by (simp add: add_def)
qed

end
